theory Spec2Isabelle
  imports Main
begin

section \<open>The result cache (cache.js: class LRUCache)\<close>

text \<open>
  The cache keeps a JavaScript \<open>Map\<close> from keys to entries \<open>{ data, size }\<close>. A \<open>Map\<close>
  iterates in insertion order, and the cache relies on that order (oldest first), so the
  \<open>Map\<close> is an association list in insertion order. \<open>currentSize\<close> is decremented by the
  code, so it is an integer; entry sizes come from \<open>_getSize\<close> (a string length times two)
  and \<open>maxSize\<close> is a capacity in bytes, so both are natural numbers.
\<close>

record 'v entry =
  entry_data :: 'v
  entry_size :: nat

record 'v LRUCache =
  maxSize :: nat
  currentSize :: int
  cache :: "(string \<times> 'v entry) list"

subsection \<open>The operations of a JavaScript Map that the cache uses\<close>

definition map_has :: "'k \<Rightarrow> ('k \<times> 'e) list \<Rightarrow> bool" where
  "map_has key m = (map_of m key \<noteq> None)"

definition map_delete :: "'k \<Rightarrow> ('k \<times> 'e) list \<Rightarrow> ('k \<times> 'e) list" where
  "map_delete key m = filter (\<lambda>kv. fst kv \<noteq> key) m"

text \<open>\<open>Map.set\<close> keeps the position of a key that is present and appends a new key.\<close>

definition map_set :: "'k \<Rightarrow> 'e \<Rightarrow> ('k \<times> 'e) list \<Rightarrow> ('k \<times> 'e) list" where
  "map_set key v m =
     (if map_has key m then map (\<lambda>kv. if fst kv = key then (key, v) else kv) m
      else m @ [(key, v)])"

subsection \<open>The methods of LRUCache\<close>

text \<open>\<open>constructor(maxSize)\<close>.\<close>

definition new_LRUCache :: "nat \<Rightarrow> 'v LRUCache" where
  "new_LRUCache maxSize0 = \<lparr>maxSize = maxSize0, currentSize = 0, cache = []\<rparr>"

text \<open>
  \<open>get(key)\<close>: \<open>null\<close> (here \<open>None\<close>) when the key is absent; otherwise the entry is deleted
  from the map and set again, which moves it to the end, and its data is returned.
\<close>

definition get :: "string \<Rightarrow> 'v LRUCache \<Rightarrow> 'v option \<times> 'v LRUCache" where
  "get key c =
     (case map_of (cache c) key of
        None \<Rightarrow> (None, c)
      | Some v \<Rightarrow> (Some (entry_data v), c\<lparr>cache := map_set key v (map_delete key (cache c))\<rparr>))"

text \<open>\<open>remove(key)\<close>.\<close>

definition remove :: "string \<Rightarrow> 'v LRUCache \<Rightarrow> 'v LRUCache" where
  "remove key c =
     (case map_of (cache c) key of
        None \<Rightarrow> c
      | Some e \<Rightarrow> c\<lparr>currentSize := currentSize c - int (entry_size e),
                   cache := map_delete key (cache c)\<rparr>)"

text \<open>\<open>clear()\<close>.\<close>

definition clear :: "'v LRUCache \<Rightarrow> 'v LRUCache" where
  "clear c = c\<lparr>cache := [], currentSize := 0\<rparr>"

text \<open>
  \<open>_getSize(obj)\<close> is \<open>JSON.stringify(obj).length * 2\<close>. The serialiser is the host's; it is
  a parameter, total on the values the cache is given (lookup results and parsed JSON
  documents).
\<close>

definition getSize :: "('v \<Rightarrow> string) \<Rightarrow> 'v \<Rightarrow> nat" where
  "getSize stringify obj = length (stringify obj) * 2"

text \<open>
  The eviction loop of \<open>set\<close>:
  \<^verbatim>\<open>while (this.currentSize + size > this.maxSize && this.cache.size > 0) {
      const firstKey = this.cache.keys().next().value;
      this.remove(firstKey);
  }\<close>
\<close>

function evict :: "nat \<Rightarrow> 'v LRUCache \<Rightarrow> 'v LRUCache" where
  "evict sz c =
     (if currentSize c + int sz > int (maxSize c) \<and> length (cache c) > 0
      then (case cache c of
              [] \<Rightarrow> c
            | (firstKey, _) # _ \<Rightarrow> evict sz (remove firstKey c))
      else c)"
  by pat_completeness auto
termination
proof (relation "measure (\<lambda>(sz, c). length (cache c))")
  show "wf (measure (\<lambda>(sz :: nat, c :: 'v LRUCache). length (cache c)))"
    by simp
next
  fix sz :: nat and c :: "'v LRUCache" and x21 x22 firstKey y
  assume "cache c = x21 # x22" and "(firstKey, y) = x21"
  then have "cache c = (firstKey, y) # x22"
    by simp
  then show "((sz, remove firstKey c), (sz, c)) \<in> measure (\<lambda>(sz, c). length (cache c))"
    by (simp add: remove_def map_delete_def le_imp_less_Suc)
qed

declare evict.simps [simp del]

text \<open>\<open>set(key, data)\<close>, named \<open>set_entry\<close> here (\<open>set\<close> is the set of a list in HOL).\<close>

definition set_entry :: "('v \<Rightarrow> string) \<Rightarrow> string \<Rightarrow> 'v \<Rightarrow> 'v LRUCache \<Rightarrow> 'v LRUCache" where
  "set_entry stringify key dat c =
     (let c1 = (if map_has key (cache c) then remove key c else c);
          sz = getSize stringify dat;
          c2 = evict sz c1
      in c2\<lparr>cache := map_set key \<lparr>entry_data = dat, entry_size = sz\<rparr> (cache c2),
            currentSize := currentSize c2 + int sz\<rparr>)"

section \<open>JavaScript values\<close>

text \<open>
  The values the lookup functions are called with and that feature properties hold. The
  number type is a parameter \<open>'n\<close>: the lookup never computes with a coordinate, it only
  tests its type, prints it into the cache key and hands it to \<open>pointInPolygon\<close>. An object
  (or array) is represented by what its conversion to a string yields: \<open>Some s\<close>, or \<open>None\<close>
  when the conversion throws (an object without \<open>toString\<close> and \<open>valueOf\<close>).
\<close>

datatype 'n jsvalue =
    JUndefined
  | JNull
  | JBool bool
  | JNumber 'n
  | JString string
  | JSymbol string
  | JObject "string option"

datatype js_exception = TypeError

text \<open>The \<open>typeof\<close> operator.\<close>

fun js_typeof :: "'n jsvalue \<Rightarrow> string" where
  "js_typeof JUndefined = ''undefined''"
| "js_typeof JNull = ''object''"
| "js_typeof (JBool b) = ''boolean''"
| "js_typeof (JNumber n) = ''number''"
| "js_typeof (JString s) = ''string''"
| "js_typeof (JSymbol d) = ''symbol''"
| "js_typeof (JObject r) = ''object''"

text \<open>
  The conversion to a string that \<open>+\<close> with a string operand and a template literal apply.
  It throws a \<open>TypeError\<close> on a Symbol, and on an object whose own conversion throws.
  Printing a number is the host's (\<open>print_number\<close>, a parameter).
\<close>

fun js_toString :: "('n \<Rightarrow> string) \<Rightarrow> 'n jsvalue \<Rightarrow> js_exception + string" where
  "js_toString print_number JUndefined = Inr ''undefined''"
| "js_toString print_number JNull = Inr ''null''"
| "js_toString print_number (JBool b) = Inr (if b then ''true'' else ''false'')"
| "js_toString print_number (JNumber n) = Inr (print_number n)"
| "js_toString print_number (JString s) = Inr s"
| "js_toString print_number (JSymbol d) = Inl TypeError"
| "js_toString print_number (JObject r) = (case r of None \<Rightarrow> Inl TypeError | Some s \<Rightarrow> Inr s)"

text \<open>\<open>left + right\<close> where \<open>left\<close> is a string.\<close>

definition string_plus :: "('n \<Rightarrow> string) \<Rightarrow> string \<Rightarrow> 'n jsvalue \<Rightarrow> js_exception + string" where
  "string_plus print_number left right =
     (case js_toString print_number right of Inl e \<Rightarrow> Inl e | Inr s \<Rightarrow> Inr (left @ s))"

text \<open>\<open>String.prototype.endsWith\<close>.\<close>

definition endsWith :: "string \<Rightarrow> string \<Rightarrow> bool" where
  "endsWith s suffix =
     (length suffix \<le> length s \<and> drop (length s - length suffix) s = suffix)"

text \<open>Reading an array at an index: \<open>undefined\<close> (here \<open>None\<close>) past the end.\<close>

definition at_index :: "'a list \<Rightarrow> nat \<Rightarrow> 'a option" where
  "at_index xs i = (if i < length xs then Some (xs ! i) else None)"

section \<open>Features and results (index-optimized.js)\<close>

text \<open>
  A ring is an array of positions; only \<open>pointInPolygon\<close> looks into it, so its type is a
  parameter \<open>'r\<close>. A Polygon's coordinates are an array of rings, a MultiPolygon's an array
  of such arrays; a geometry of any other type is skipped by the scan.
\<close>

datatype 'r geometry =
    Polygon "'r list"
  | MultiPolygon "'r list list"
  | OtherGeometry

text \<open>
  The properties of a feature that the lookup reads. \<open>iso_3166_2\<close> is a string: the code
  compares it with \<open>''\<close> and calls \<open>endsWith\<close> on it.
\<close>

record 'n props =
  cont_code :: "'n jsvalue"
  iso_a2 :: "'n jsvalue"
  adm0_a3 :: "'n jsvalue"
  region_code :: "'n jsvalue"
  iso_3166_2 :: string

record ('n, 'r) feature =
  properties :: "'n props"
  geometry :: "'r geometry"

text \<open>
  A plain object is the list of its properties in insertion order; assigning a property is
  \<open>map_set\<close>. The features of a returned collection are either a copy of a source feature
  (raw mode) or \<open>{ type: 'Feature', properties, geometry }\<close> with the derived properties
  (geojson mode).
\<close>

type_synonym 'n jsobject = "(string \<times> 'n jsvalue) list"

datatype ('n, 'r) out_feature =
    SourceFeature "('n, 'r) feature"
  | DerivedFeature "'n jsobject" "'r geometry"

text \<open>
  What \<open>reverseGeolocation\<close> returns, and what the cache stores: \<open>new Error(message)\<close>,
  \<open>null\<close>, a properties object, or \<open>{ type: 'FeatureCollection', features }\<close>.
\<close>

datatype ('n, 'r) jsresult =
    ErrorObject string
  | Null
  | PropertiesObject "'n jsobject"
  | FeatureCollection "('n, 'r) out_feature list"

text \<open>Truthiness, as \<open>if (cached)\<close> and \<open>config.cache && result\<close> test it: every object is truthy.\<close>

fun truthy :: "('n, 'r) jsresult \<Rightarrow> bool" where
  "truthy Null = False"
| "truthy _ = True"

text \<open>\<open>clone\<close> (just-clone) makes a deep copy; on values a copy is the value.\<close>

definition clone :: "'a \<Rightarrow> 'a" where
  "clone x = x"

text \<open>
  What the lookup does that a caller could observe besides its result: the calls of
  \<open>pointInPolygon\<close> with their arguments, and the calls of the cache's \<open>get\<close> and \<open>set\<close>, in
  the order they happen.
\<close>

datatype ('n, 'r) event =
    PointInPolygonCall "'r option" "'n jsvalue list"
  | CacheGet string
  | CacheSet string

text \<open>
  The host functions and the data the module closes over: \<open>pointInPolygon\<close> of utils.js,
  the printing of numbers, \<open>JSON.stringify\<close>, and \<open>admin1.features\<close>.
\<close>

record ('n, 'r) env =
  pointInPolygon :: "'r option \<Rightarrow> 'n jsvalue list \<Rightarrow> bool"
  numberToString :: "'n \<Rightarrow> string"
  json_stringify :: "('n, 'r) jsresult \<Rightarrow> string"
  admin1_features :: "('n, 'r) feature list"

section \<open>The lookup (index-optimized.js: reverseGeolocation)\<close>

subsection \<open>The scan of the features (lines 60 to 93)\<close>

text \<open>
  Every test returns the value of \<open>found\<close> together with the calls of \<open>pointInPolygon\<close> it
  made. The loop over the holes,
  \<^verbatim>\<open>for(let j = 1; j < coords.length; j++) {
      if(pointInPolygon(coords[j], point)) { found = false; break; }
  }\<close>
  is entered with \<open>found\<close> true; \<open>exclude_holes\<close> is the loop from index \<open>j\<close> on.
\<close>

function exclude_holes ::
  "('r option \<Rightarrow> 'n jsvalue list \<Rightarrow> bool) \<Rightarrow> 'r list \<Rightarrow> 'n jsvalue list \<Rightarrow> nat
     \<Rightarrow> bool \<times> ('n, 'r) event list" where
  "exclude_holes pip coords point j =
     (if j < length coords then
        (if pip (at_index coords j) point
         then (False, [PointInPolygonCall (at_index coords j) point])
         else (case exclude_holes pip coords point (j + 1) of
                 (found, calls) \<Rightarrow> (found, PointInPolygonCall (at_index coords j) point # calls)))
      else (True, []))"
  by pat_completeness auto
termination
  by (relation "measure (\<lambda>(pip, coords, point, j). length coords - j)") auto

declare exclude_holes.simps [simp del]

text \<open>
  The test of one array of rings: the body of the Polygon branch (lines 66 to 75) and, with
  the same text, the body of the loop of the MultiPolygon branch (lines 78 to 87).
\<close>

definition rings_test ::
  "('r option \<Rightarrow> 'n jsvalue list \<Rightarrow> bool) \<Rightarrow> 'r list \<Rightarrow> 'n jsvalue list
     \<Rightarrow> bool \<times> ('n, 'r) event list" where
  "rings_test pip coords point =
     (let found = pip (at_index coords 0) point;
          call = PointInPolygonCall (at_index coords 0) point
      in if found \<and> length coords > 1
         then (case exclude_holes pip coords point 1 of
                 (found', calls) \<Rightarrow> (found', call # calls))
         else (found, [call]))"

text \<open>
  The loop over the sub-polygons of a MultiPolygon, left by \<open>break\<close> once \<open>found\<close> is true.
  \<open>found\<close> is false whenever the loop is entered, and stays so over an empty array.
\<close>

fun multi_test ::
  "('r option \<Rightarrow> 'n jsvalue list \<Rightarrow> bool) \<Rightarrow> 'r list list \<Rightarrow> 'n jsvalue list
     \<Rightarrow> bool \<times> ('n, 'r) event list" where
  "multi_test pip [] point = (False, [])"
| "multi_test pip (coords # rest) point =
     (case rings_test pip coords point of
        (found, calls) \<Rightarrow>
          if found then (True, calls)
          else (case multi_test pip rest point of
                  (found', calls') \<Rightarrow> (found', calls @ calls')))"

definition geometry_test ::
  "('r option \<Rightarrow> 'n jsvalue list \<Rightarrow> bool) \<Rightarrow> 'r geometry \<Rightarrow> 'n jsvalue list
     \<Rightarrow> bool \<times> ('n, 'r) event list" where
  "geometry_test pip g point =
     (case g of
        Polygon coords \<Rightarrow> rings_test pip coords point
      | MultiPolygon polys \<Rightarrow> multi_test pip polys point
      | OtherGeometry \<Rightarrow> (False, []))"

text \<open>
  The loop over the features, from counter \<open>i\<close> on: it returns \<open>found\<close>, the counter and the
  calls made.
\<close>

fun scan ::
  "('r option \<Rightarrow> 'n jsvalue list \<Rightarrow> bool) \<Rightarrow> ('n, 'r) feature list \<Rightarrow> 'n jsvalue list \<Rightarrow> nat
     \<Rightarrow> bool \<times> nat \<times> ('n, 'r) event list" where
  "scan pip [] point i = (False, i, [])"
| "scan pip (country # rest) point i =
     (case geometry_test pip (geometry country) point of
        (found, calls) \<Rightarrow>
          if found then (True, i, calls)
          else (case scan pip rest point (i + 1) of
                  (found', i', calls') \<Rightarrow> (found', i', calls @ calls')))"

subsection \<open>Building the result (lines 95 to 125)\<close>

text \<open>The derived properties object (lines 103 to 111).\<close>

definition derive_properties :: "'n props \<Rightarrow> 'n jsobject" where
  "derive_properties props =
     (let properties0 = [];
          properties1 = map_set ''continent_code'' (cont_code props) properties0;
          properties2 = map_set ''country_a2'' (iso_a2 props) properties1;
          properties3 = map_set ''country_a3'' (adm0_a3 props) properties2;
          properties4 = map_set ''region_code'' (region_code props) properties3
      in if iso_3166_2 props \<noteq> '''' \<and> \<not> endsWith (iso_3166_2 props) ''~''
         then map_set ''state_code'' (JString (iso_3166_2 props)) properties4
         else properties4)"

text \<open>\<open>dataType\<close> is \<open>null\<close> (the default, here \<open>None\<close>) or a string.\<close>

definition build_result :: "string option \<Rightarrow> ('n, 'r) feature \<Rightarrow> ('n, 'r) jsresult" where
  "build_result dataType country =
     (if dataType = Some ''raw'' then FeatureCollection [SourceFeature (clone country)]
      else (let properties' = derive_properties (properties country)
            in if dataType = Some ''geojson''
               then FeatureCollection [DerivedFeature properties' (clone (geometry country))]
               else PropertiesObject (clone properties')))"

subsection \<open>reverseGeolocation\<close>

text \<open>The template literal \<open>`${lat}_${lng}_${dataType}`\<close>.\<close>

definition cacheKey ::
  "('n \<Rightarrow> string) \<Rightarrow> 'n jsvalue \<Rightarrow> 'n jsvalue \<Rightarrow> string option \<Rightarrow> js_exception + string" where
  "cacheKey print_number lat lng dataType =
     (case js_toString print_number lat of
        Inl e \<Rightarrow> Inl e
      | Inr a \<Rightarrow>
          (case js_toString print_number lng of
             Inl e \<Rightarrow> Inl e
           | Inr b \<Rightarrow>
               Inr (a @ ''_'' @ b @ ''_'' @ (case dataType of None \<Rightarrow> ''null'' | Some s \<Rightarrow> s))))"

text \<open>\<open>'Wrong coordinates (lat: ' + lat + ',lng: ' + lng + ')'\<close>, evaluated from the left.\<close>

definition wrong_coordinates ::
  "('n \<Rightarrow> string) \<Rightarrow> 'n jsvalue \<Rightarrow> 'n jsvalue \<Rightarrow> js_exception + string" where
  "wrong_coordinates print_number lat lng =
     (case string_plus print_number ''Wrong coordinates (lat: '' lat of
        Inl e \<Rightarrow> Inl e
      | Inr s1 \<Rightarrow>
          (case string_plus print_number (s1 @ '',lng: '') lng of
             Inl e \<Rightarrow> Inl e
           | Inr s2 \<Rightarrow> Inr (s2 @ '')'')))"

text \<open>
  Lines 60 to 132, after a cache miss: scan, build the result, store it when there is a
  cache and the result is truthy. \<open>config_cache\<close> is the object \<open>config.cache\<close> refers to
  (\<open>None\<close> for \<open>null\<close>). Reading \<open>countries[i]\<close> past the end would give \<open>undefined\<close>, and
  reading a property of it throws.
\<close>

definition scan_and_store ::
  "('n, 'r) env \<Rightarrow> ('n, 'r) jsresult LRUCache option \<Rightarrow> string \<Rightarrow> 'n jsvalue \<Rightarrow> 'n jsvalue
     \<Rightarrow> string option
     \<Rightarrow> js_exception + (('n, 'r) jsresult \<times> ('n, 'r) jsresult LRUCache option \<times> ('n, 'r) event list)"
  where
  "scan_and_store e config_cache key lat lng dataType =
     (let point = [lng, lat];
          countries = admin1_features e
      in case scan (pointInPolygon e) countries point 0 of
           (found, i, calls) \<Rightarrow>
             (case (if found
                    then (case at_index countries i of
                            None \<Rightarrow> Inl TypeError
                          | Some country \<Rightarrow> Inr (build_result dataType country))
                    else Inr Null) of
                Inl ex \<Rightarrow> Inl ex
              | Inr result \<Rightarrow>
                  (case config_cache of
                     Some c \<Rightarrow>
                       if truthy result
                       then Inr (result, Some (set_entry (json_stringify e) key result c),
                                 calls @ [CacheSet key])
                       else Inr (result, Some c, calls)
                   | None \<Rightarrow> Inr (result, None, calls))))"

text \<open>
  The function: \<open>Inl\<close> is a thrown exception, \<open>Inr\<close> the returned value, the cache afterwards
  and the calls made.
\<close>

definition reverseGeolocation ::
  "('n, 'r) env \<Rightarrow> ('n, 'r) jsresult LRUCache option \<Rightarrow> 'n jsvalue \<Rightarrow> 'n jsvalue \<Rightarrow> string option
     \<Rightarrow> js_exception + (('n, 'r) jsresult \<times> ('n, 'r) jsresult LRUCache option \<times> ('n, 'r) event list)"
  where
  "reverseGeolocation e config_cache lat lng dataType =
     (if js_typeof lat \<noteq> ''number'' \<or> js_typeof lng \<noteq> ''number''
      then (case wrong_coordinates (numberToString e) lat lng of
              Inl ex \<Rightarrow> Inl ex
            | Inr message \<Rightarrow> Inr (ErrorObject message, config_cache, []))
      else (case cacheKey (numberToString e) lat lng dataType of
              Inl ex \<Rightarrow> Inl ex
            | Inr key \<Rightarrow>
                (case config_cache of
                   None \<Rightarrow> scan_and_store e None key lat lng dataType
                 | Some c \<Rightarrow>
                     (case get key c of
                        (cached, c') \<Rightarrow>
                          (case (case cached of None \<Rightarrow> None
                                 | Some v \<Rightarrow> if truthy v then Some v else None) of
                             Some v \<Rightarrow> Inr (v, Some c', [CacheGet key])
                           | None \<Rightarrow>
                               (case scan_and_store e (Some c') key lat lng dataType of
                                  Inl ex \<Rightarrow> Inl ex
                                | Inr (result, cfg, calls) \<Rightarrow>
                                    Inr (result, cfg, CacheGet key # calls)))))))"

text \<open>The exported wrappers.\<close>

definition lookUp where
  "lookUp e config_cache lat lon = reverseGeolocation e config_cache lat lon None"

definition lookUpRaw where
  "lookUpRaw e config_cache lat lon = reverseGeolocation e config_cache lat lon (Some ''raw'')"

definition lookUpGeoJSON where
  "lookUpGeoJSON e config_cache lat lon = reverseGeolocation e config_cache lat lon (Some ''geojson'')"

subsection \<open>readJSONFile (lines 148 to 168)\<close>

text \<open>
  The other function of the module that stores into the cache. It looks the path up, returns
  a truthy cached value, and otherwise reads and parses the file, stores the parsed value
  under the path and returns it; a failure of the reading or of the parsing is caught and
  answered with \<open>null\<close>. The file system is the host's: \<open>contents\<close> is the parsed file, \<open>None\<close>
  when reading or parsing fails. The callers (lines 170 to 193) build the paths
  \<open>/continents/...\<close>, \<open>/countries/...\<close>, \<open>/country-groupings/...\<close> and \<open>/regions/...\<close>: every
  path begins with a slash. The result is the returned value and the cache afterwards.
\<close>

definition readJSONFile ::
  "('n, 'r) env \<Rightarrow> ('n, 'r) jsresult LRUCache option \<Rightarrow> string \<Rightarrow> ('n, 'r) jsresult option
     \<Rightarrow> ('n, 'r) jsresult \<times> ('n, 'r) jsresult LRUCache option" where
  "readJSONFile e cfg filePath contents =
     (case cfg of
        None \<Rightarrow> (case contents of None \<Rightarrow> (Null, None) | Some parsed \<Rightarrow> (parsed, None))
      | Some c \<Rightarrow>
          (case get filePath c of
             (cached, c') \<Rightarrow>
               (case (case cached of None \<Rightarrow> None
                      | Some v \<Rightarrow> if truthy v then Some v else None) of
                  Some v \<Rightarrow> (v, Some c')
                | None \<Rightarrow>
                    (case contents of
                       None \<Rightarrow> (Null, Some c')
                     | Some parsed \<Rightarrow>
                         (parsed, Some (set_entry (json_stringify e) filePath parsed c'))))))"

section \<open>The cache singleton and configure (cache.js: getCache; index-optimized.js: configure)\<close>

text \<open>
  \<open>cacheInstance\<close> (cache.js) and \<open>config.cache\<close> (index-optimized.js) are references to
  objects, and both may refer to the same one. The objects live in a heap, a list indexed
  by the reference; \<open>new LRUCache(maxSize)\<close> appends one. A reference variable holding
  \<open>null\<close> is \<open>None\<close>.
\<close>

record ('n, 'r) module_state =
  config_useOptimized :: bool
  config_cacheSize :: nat
  config_cache :: "nat option"
  cacheInstance :: "nat option"
  heap :: "('n, 'r) jsresult LRUCache list"

text \<open>The state after the modules are loaded (lines 8 to 12, and \<open>let cacheInstance = null\<close>).\<close>

definition initial_state :: "('n, 'r) module_state" where
  "initial_state =
     \<lparr>config_useOptimized = True, config_cacheSize = 50 * 1024 * 1024,
      config_cache = None, cacheInstance = None, heap = []\<rparr>"

text \<open>\<open>getCache(maxSize)\<close>: the reference returned, and the state afterwards.\<close>

definition getCache :: "nat \<Rightarrow> ('n, 'r) module_state \<Rightarrow> nat \<times> ('n, 'r) module_state" where
  "getCache maxSize0 st =
     (case cacheInstance st of
        None \<Rightarrow>
          (let r = length (heap st)
           in (r, st\<lparr>heap := heap st @ [new_LRUCache maxSize0], cacheInstance := Some r\<rparr>))
      | Some r \<Rightarrow> (r, st))"

text \<open>The \<open>options\<close> argument of configure: a property that is \<open>undefined\<close> is \<open>None\<close>.\<close>

record options =
  options_cacheSize :: "nat option"
  options_useOptimized :: "bool option"

definition configure :: "options \<Rightarrow> ('n, 'r) module_state \<Rightarrow> ('n, 'r) module_state" where
  "configure opts st =
     (let st1 = (case options_cacheSize opts of
                   None \<Rightarrow> st
                 | Some n \<Rightarrow>
                     (let st' = st\<lparr>config_cacheSize := n\<rparr>
                      in case getCache (config_cacheSize st') st' of
                           (r, st'') \<Rightarrow> st''\<lparr>config_cache := Some r\<rparr>))
      in case options_useOptimized opts of
           None \<Rightarrow> st1
         | Some b \<Rightarrow> st1\<lparr>config_useOptimized := b\<rparr>)"

text \<open>The object a reference refers to.\<close>

definition deref :: "('n, 'r) module_state \<Rightarrow> nat option \<Rightarrow> ('n, 'r) jsresult LRUCache option" where
  "deref st ref = (case ref of None \<Rightarrow> None | Some r \<Rightarrow> at_index (heap st) r)"

section \<open>The cache: what the specification says, in its words\<close>

text \<open>
  The eviction step of \<open>set\<close> as the specification words it: while the current size plus
  the new size exceeds the capacity and the cache is non-empty, evict the oldest entry in
  recency order and subtract its size. The cache is given by its capacity, its size counter
  and its entries, oldest first.
\<close>

fun evict_spec :: "nat \<Rightarrow> nat \<Rightarrow> int \<Rightarrow> (string \<times> 'v entry) list \<Rightarrow> int \<times> (string \<times> 'v entry) list" where
  "evict_spec capacity new_size current_size [] = (current_size, [])"
| "evict_spec capacity new_size current_size ((k, e) # rest) =
     (if current_size + int new_size > int capacity
      then evict_spec capacity new_size (current_size - int (entry_size e)) rest
      else (current_size, (k, e) # rest))"

text \<open>
  \<open>set(key, value)\<close> as the specification words it: remove an existing entry of the key and
  subtract its size; compute the new size; evict; insert the new entry at the
  most-recently-used end and add its size.
\<close>

definition set_spec :: "('v \<Rightarrow> string) \<Rightarrow> string \<Rightarrow> 'v \<Rightarrow> 'v LRUCache \<Rightarrow> 'v LRUCache" where
  "set_spec stringify key dat c =
     (let new_size = getSize stringify dat;
          removed = (case map_of (cache c) key of
                       None \<Rightarrow> (currentSize c, cache c)
                     | Some old \<Rightarrow> (currentSize c - int (entry_size old),
                                    filter (\<lambda>kv. fst kv \<noteq> key) (cache c)));
          evicted = evict_spec (maxSize c) new_size (fst removed) (snd removed)
      in c\<lparr>currentSize := fst evicted + int new_size,
            cache := snd evicted @ [(key, \<lparr>entry_data = dat, entry_size = new_size\<rparr>)]\<rparr>)"

text \<open>The sum of the sizes of the stored entries.\<close>

definition total_size :: "(string \<times> 'v entry) list \<Rightarrow> nat" where
  "total_size es = sum_list (map (\<lambda>kv. entry_size (snd kv)) es)"

text \<open>The operations of a cache, to speak about sequences of them.\<close>

datatype 'v cache_op = OpGet string | OpSet string 'v | OpRemove string | OpClear

fun apply_op :: "('v \<Rightarrow> string) \<Rightarrow> 'v LRUCache \<Rightarrow> 'v cache_op \<Rightarrow> 'v LRUCache" where
  "apply_op stringify c (OpGet key) = snd (get key c)"
| "apply_op stringify c (OpSet key dat) = set_entry stringify key dat c"
| "apply_op stringify c (OpRemove key) = remove key c"
| "apply_op stringify c OpClear = clear c"

section \<open>The containment rule, in the words of the specification\<close>

text \<open>
  The elements of a list up to and including the first one that satisfies \<open>P\<close>: what a loop
  that stops at the first success looks at.
\<close>

fun upto_first :: "('a \<Rightarrow> bool) \<Rightarrow> 'a list \<Rightarrow> 'a list" where
  "upto_first P [] = []"
| "upto_first P (x # xs) = (if P x then [x] else x # upto_first P xs)"

text \<open>The index of the first element that satisfies \<open>P\<close> (the length, if there is none).\<close>

definition first_index :: "('a \<Rightarrow> bool) \<Rightarrow> 'a list \<Rightarrow> nat" where
  "first_index P xs = length (takeWhile (\<lambda>x. \<not> P x) xs)"

text \<open>
  The Polygon rule: the point is in the outer ring \<open>rings[0]\<close> and in no hole ring
  \<open>rings[k]\<close>, \<open>k \<ge> 1\<close>.
\<close>

definition polygon_rule ::
  "('r option \<Rightarrow> 'n jsvalue list \<Rightarrow> bool) \<Rightarrow> 'r list \<Rightarrow> 'n jsvalue list \<Rightarrow> bool" where
  "polygon_rule pip rings point =
     (pip (at_index rings 0) point \<and> (\<forall>hole \<in> set (drop 1 rings). \<not> pip (Some hole) point))"

text \<open>
  The ring tests the Polygon rule may evaluate: the outer ring, and, only when that test
  passes, the holes in order up to and including the first that contains the point.
\<close>

definition polygon_calls ::
  "('r option \<Rightarrow> 'n jsvalue list \<Rightarrow> bool) \<Rightarrow> 'r list \<Rightarrow> 'n jsvalue list \<Rightarrow> ('n, 'r) event list" where
  "polygon_calls pip rings point =
     PointInPolygonCall (at_index rings 0) point #
     (if pip (at_index rings 0) point
      then map (\<lambda>hole. PointInPolygonCall (Some hole) point)
             (upto_first (\<lambda>hole. pip (Some hole) point) (drop 1 rings))
      else [])"

text \<open>
  Whether the geometry of a feature contains the point \<open>[lng, lat]\<close>, and the calls of
  \<open>pointInPolygon\<close> its test makes.
\<close>

definition feature_contains ::
  "('n, 'r) env \<Rightarrow> 'n jsvalue \<Rightarrow> 'n jsvalue \<Rightarrow> ('n, 'r) feature \<Rightarrow> bool" where
  "feature_contains e lat lng country =
     fst (geometry_test (pointInPolygon e) (geometry country) [lng, lat])"

definition feature_calls ::
  "('n, 'r) env \<Rightarrow> 'n jsvalue \<Rightarrow> 'n jsvalue \<Rightarrow> ('n, 'r) feature \<Rightarrow> ('n, 'r) event list" where
  "feature_calls e lat lng country =
     snd (geometry_test (pointInPolygon e) (geometry country) [lng, lat])"

section \<open>Auxiliary definitions for the proofs\<close>

text \<open>
  The invariant of the cache: the keys are distinct (the entries are those of a \<open>Map\<close>), the
  size counter is the sum of the stored sizes, and the counter is within the capacity unless
  a single entry is stored whose size exceeds the capacity.
\<close>

definition cache_inv :: "'v LRUCache \<Rightarrow> bool" where
  "cache_inv c =
     (distinct (map fst (cache c)) \<and> currentSize c = int (total_size (cache c)) \<and>
      (currentSize c \<le> int (maxSize c) \<or> (\<exists>k e. cache c = [(k, e)] \<and> maxSize c < entry_size e)))"

text \<open>A cache of capacity 10 with two entries of size 4, for the examples.\<close>

abbreviation example_cache :: "string LRUCache" where
  "example_cache \<equiv>
     \<lparr>maxSize = 10, currentSize = 8,
      cache = [(''a'', \<lparr>entry_data = ''xx'', entry_size = 4\<rparr>),
               (''b'', \<lparr>entry_data = ''yy'', entry_size = 4\<rparr>)]\<rparr>"

text \<open>
  The value a call of \<open>reverseGeolocation\<close> produces for its caller: the thrown exception or
  the returned value.
\<close>

definition lookup_output ::
  "('n, 'r) env \<Rightarrow> ('n, 'r) jsresult LRUCache option \<Rightarrow> 'n jsvalue \<Rightarrow> 'n jsvalue \<Rightarrow> string option
     \<Rightarrow> js_exception + ('n, 'r) jsresult" where
  "lookup_output e cfg lat lng dataType =
     (case reverseGeolocation e cfg lat lng dataType of
        Inl ex \<Rightarrow> Inl ex
      | Inr (result, cfg', calls) \<Rightarrow> Inr result)"

text \<open>
  What may happen to the cache between two lookups: another lookup, or an operation on the
  cache itself (\<open>readJSONFile\<close> stores parsed files in the same cache under their paths;
  \<open>clearCache\<close> clears it). Without a cache (\<open>config.cache\<close> is \<open>null\<close>) the operations do
  nothing. A lookup that throws does so before it touches the cache.
\<close>

datatype ('n, 'r) step =
    Lookup "'n jsvalue" "'n jsvalue" "string option"
  | CacheOp "('n, 'r) jsresult cache_op"

fun run_step ::
  "('n, 'r) env \<Rightarrow> ('n, 'r) jsresult LRUCache option \<Rightarrow> ('n, 'r) step
     \<Rightarrow> ('n, 'r) jsresult LRUCache option" where
  "run_step e cfg (Lookup lat lng dataType) =
     (case reverseGeolocation e cfg lat lng dataType of
        Inl ex \<Rightarrow> cfg
      | Inr (result, cfg', calls) \<Rightarrow> cfg')"
| "run_step e cfg (CacheOp op) =
     (case cfg of
        None \<Rightarrow> None
      | Some c \<Rightarrow> Some (apply_op (json_stringify e) c op))"

text \<open>
  A step is unrelated to the query \<open>(lat, lng, dataType)\<close> when it does not store a value of
  its own under the query's cache key: it is a lookup of the same query or of one with
  another key, an insertion under another key, or a read, removal or clearing.
\<close>

fun unrelated ::
  "('n, 'r) env \<Rightarrow> 'n jsvalue \<Rightarrow> 'n jsvalue \<Rightarrow> string option \<Rightarrow> ('n, 'r) step \<Rightarrow> bool" where
  "unrelated e lat lng dataType (Lookup lat' lng' dataType') =
     ((lat' = lat \<and> lng' = lng \<and> dataType' = dataType) \<or>
      cacheKey (numberToString e) lat' lng' dataType' \<noteq> cacheKey (numberToString e) lat lng dataType)"
| "unrelated e lat lng dataType (CacheOp (OpSet key v)) =
     (Inr key \<noteq> cacheKey (numberToString e) lat lng dataType)"
| "unrelated e lat lng dataType (CacheOp op) = True"

text \<open>
  The cache agrees with the query when, under the query's key, it stores nothing or the
  result a scan without cache gives, that result being truthy.
\<close>

definition agrees ::
  "('n, 'r) env \<Rightarrow> 'n jsvalue \<Rightarrow> 'n jsvalue \<Rightarrow> string option \<Rightarrow> ('n, 'r) jsresult LRUCache option
     \<Rightarrow> bool" where
  "agrees e lat lng dataType cfg =
     (case cfg of
        None \<Rightarrow> True
      | Some c \<Rightarrow>
          (case cacheKey (numberToString e) lat lng dataType of
             Inl ex \<Rightarrow> True
           | Inr key \<Rightarrow>
               (case map_of (cache c) key of
                  None \<Rightarrow> True
                | Some v \<Rightarrow> truthy (entry_data v) \<and>
                    Inr (entry_data v) = lookup_output e None lat lng dataType)))"

text \<open>
  The steps of a history of the cache, whatever the query asked afterwards: every lookup, of
  any coordinates and any mode; an insertion under a key that begins with a slash, as the
  paths of \<open>readJSONFile\<close> do; every read, removal and clearing.
\<close>

fun module_step :: "('n, 'r) step \<Rightarrow> bool" where
  "module_step (Lookup lat lng dataType) = True"
| "module_step (CacheOp (OpSet key v)) = (take 1 key = ''/'')"
| "module_step (CacheOp op) = True"

text \<open>
  What is assumed of the host, whose functions are parameters here. The printing of a number
  contains no underscore (the separator of the cache key) and no slash (the first character
  of a file path), and \<open>pointInPolygon\<close> gives the same answer for numbers that are printed
  alike. The last holds when the printing is injective; in JavaScript the only numbers
  printed alike are \<open>0\<close> and \<open>-0\<close>.
\<close>

definition host_printing :: "('n, 'r) env \<Rightarrow> bool" where
  "host_printing e =
     ((\<forall>n. CHR ''_'' \<notin> set (numberToString e n) \<and> CHR ''/'' \<notin> set (numberToString e n)) \<and>
      (\<forall>a a' b b' ring.
          numberToString e a = numberToString e a' \<and> numberToString e b = numberToString e b' \<longrightarrow>
          pointInPolygon e ring [JNumber b, JNumber a] = pointInPolygon e ring [JNumber b', JNumber a']))"

section \<open>Example data\<close>

text \<open>
  Host functions for the examples, over integer coordinates: a ring is an axis-aligned box
  \<open>(x0, y0, x1, y1)\<close> and a point is in it when it is strictly inside; numbers are printed
  in decimal; every result serialises to four characters.
\<close>

definition in_box :: "(int \<times> int \<times> int \<times> int) option \<Rightarrow> int jsvalue list \<Rightarrow> bool" where
  "in_box ring point =
     (case ring of
        None \<Rightarrow> False
      | Some (x0, y0, x1, y1) \<Rightarrow>
          (case point of
             [JNumber x, JNumber y] \<Rightarrow> x0 < x \<and> x < x1 \<and> y0 < y \<and> y < y1
           | _ \<Rightarrow> False))"

fun show_nat :: "nat \<Rightarrow> string" where
  "show_nat n =
     (if n < 10 then [''0123456789'' ! n]
      else show_nat (n div 10) @ [''0123456789'' ! (n mod 10)])"

declare show_nat.simps [simp del]

definition show_int :: "int \<Rightarrow> string" where
  "show_int i = (if i < 0 then ''-'' @ show_nat (nat (- i)) else show_nat (nat i))"

definition example_env ::
  "(int, int \<times> int \<times> int \<times> int) feature list \<Rightarrow> (int, int \<times> int \<times> int \<times> int) env" where
  "example_env features =
     \<lparr>pointInPolygon = in_box, numberToString = show_int,
      json_stringify = (\<lambda>result. ''{..}''), admin1_features = features\<rparr>"

text \<open>
  Two overlapping squares tagged with different country codes, the second with a hole and
  with a subdivision code that ends with the sentinel.
\<close>

definition square_A :: "(int, int \<times> int \<times> int \<times> int) feature" where
  "square_A =
     \<lparr>properties = \<lparr>cont_code = JString ''NA'', iso_a2 = JString ''AA'', adm0_a3 = JString ''AAA'',
                     region_code = JString ''A-W'', iso_3166_2 = ''AA-KS''\<rparr>,
      geometry = Polygon [(0, 0, 10, 10)]\<rparr>"

definition square_B :: "(int, int \<times> int \<times> int \<times> int) feature" where
  "square_B =
     \<lparr>properties = \<lparr>cont_code = JString ''OC'', iso_a2 = JString ''BB'', adm0_a3 = JString ''BBB'',
                     region_code = JNull, iso_3166_2 = ''BB-X01~''\<rparr>,
      geometry = MultiPolygon [[(20, 20, 30, 30)], [(5, 5, 15, 15), (11, 11, 13, 13)]]\<rparr>"

section \<open>Properties of the cache\<close>

lemma map_delete_absent: "map_of m key = None \<Longrightarrow> map_delete key m = m"
  by (induction m) (auto simp: map_delete_def split: if_splits)

lemma map_of_map_delete: "map_of (map_delete key m) key = None"
  by (induction m) (auto simp: map_delete_def)

lemma map_set_absent: "map_of m key = None \<Longrightarrow> map_set key v m = m @ [(key, v)]"
  by (simp add: map_set_def map_has_def)

lemma map_delete_head_distinct:
  "distinct (map fst ((k, e) # rest)) \<Longrightarrow> map_delete k ((k, e) # rest) = rest"
  by (simp add: map_delete_def) (metis (mono_tags, lifting) filter_True fst_conv image_eqI set_map surj_pair)

lemma distinct_map_delete: "distinct (map fst m) \<Longrightarrow> distinct (map fst (map_delete key m))"
  by (simp add: map_delete_def distinct_map_filter)

lemma evict_spec_eq:
  "distinct (map fst (cache c)) \<Longrightarrow>
   evict sz c = c\<lparr>currentSize := fst (evict_spec (maxSize c) sz (currentSize c) (cache c)),
                  cache := snd (evict_spec (maxSize c) sz (currentSize c) (cache c))\<rparr>"
proof (induction sz c rule: evict.induct)
  case (1 sz c)
  show ?case
  proof (cases "cache c")
    case Nil
    then show ?thesis by (simp add: evict.simps [of sz c])
  next
    case (Cons kv rest)
    obtain k e where kv: "kv = (k, e)" by (cases kv)
    show ?thesis
    proof (cases "currentSize c + int sz > int (maxSize c)")
      case False
      then show ?thesis using Cons kv by (simp add: evict.simps [of sz c])
    next
      case True
      have d: "map_delete k (cache c) = rest"
        using "1.prems" Cons kv map_delete_head_distinct [of k e rest] by simp
      have r: "remove k c = c\<lparr>currentSize := currentSize c - int (entry_size e), cache := rest\<rparr>"
        using Cons kv d by (simp add: remove_def)
      have dr: "distinct (map fst (cache (remove k c)))"
        using "1.prems" Cons kv r by simp
      have "evict sz c = evict sz (remove k c)"
        using True Cons kv by (simp add: evict.simps [of sz c])
      also have "\<dots> = (remove k c)\<lparr>currentSize := fst (evict_spec (maxSize (remove k c)) sz (currentSize (remove k c)) (cache (remove k c))),
                  cache := snd (evict_spec (maxSize (remove k c)) sz (currentSize (remove k c)) (cache (remove k c)))\<rparr>"
      proof (rule "1.IH" [of kv rest k e])
        show "int (maxSize c) < currentSize c + int sz \<and> 0 < length (cache c)"
          using True Cons by simp
        show "cache c = kv # rest" by (rule Cons)
        show "(k, e) = kv" using kv by simp
        show "distinct (map fst (cache (remove k c)))" by (rule dr)
      qed
      also have "\<dots> = c\<lparr>currentSize := fst (evict_spec (maxSize c) sz (currentSize c) (cache c)),
                  cache := snd (evict_spec (maxSize c) sz (currentSize c) (cache c))\<rparr>"
        unfolding r using True Cons kv by simp
      finally show ?thesis .
    qed
  qed
qed

lemma total_size_simps [simp]:
  "total_size [] = 0"
  "total_size (kv # es) = entry_size (snd kv) + total_size es"
  "total_size (es @ es') = total_size es + total_size es'"
  by (simp_all add: total_size_def)

lemma total_size_delete:
  "distinct (map fst es) \<Longrightarrow> map_of es key = Some old \<Longrightarrow>
   int (total_size (map_delete key es)) = int (total_size es) - int (entry_size old)"
proof (induction es)
  case Nil
  then show ?case by simp
next
  case (Cons kv es)
  show ?case
  proof (cases "fst kv = key")
    case True
    then have "map_of es key = None"
      using Cons.prems(1) by (cases kv) (auto simp: map_of_eq_None_iff)
    then have "map_delete key es = es"
      by (rule map_delete_absent)
    then have "map_delete key (kv # es) = es"
      using True by (simp add: map_delete_def)
    moreover have "old = snd kv"
      using True Cons.prems(2) by (cases kv) simp
    ultimately show ?thesis by simp
  next
    case False
    then have "map_of es key = Some old"
      using Cons.prems(2) by (cases kv) (simp split: if_splits)
    then have "int (total_size (map_delete key es)) = int (total_size es) - int (entry_size old)"
      using Cons.IH Cons.prems(1) by simp
    moreover have "map_delete key (kv # es) = kv # map_delete key es"
      using False by (simp add: map_delete_def)
    ultimately show ?thesis by simp
  qed
qed

lemma evict_spec_props:
  "cur = int (total_size es) \<Longrightarrow>
   fst (evict_spec cap sz cur es) = int (total_size (snd (evict_spec cap sz cur es))) \<and>
   (\<exists>n. snd (evict_spec cap sz cur es) = drop n es) \<and>
   (snd (evict_spec cap sz cur es) = [] \<or> fst (evict_spec cap sz cur es) + int sz \<le> int cap)"
proof (induction es arbitrary: cur)
  case Nil
  then show ?case by simp
next
  case (Cons kv es)
  obtain k e where kv: "kv = (k, e)" by (cases kv)
  show ?case
  proof (cases "cur + int sz > int cap")
    case False
    have "(k, e) # es = drop 0 ((k, e) # es)" by simp
    then have "\<exists>n. (k, e) # es = drop n ((k, e) # es)" by (rule exI)
    then show ?thesis using False Cons.prems kv by simp
  next
    case True
    have c': "cur - int (entry_size e) = int (total_size es)"
      using Cons.prems kv by simp
    note ih = Cons.IH [OF c']
    from ih obtain n where n: "snd (evict_spec cap sz (cur - int (entry_size e)) es) = drop n es"
      by blast
    then have "snd (evict_spec cap sz (cur - int (entry_size e)) es) = drop (Suc n) ((k, e) # es)"
      by simp
    then have "\<exists>m. snd (evict_spec cap sz (cur - int (entry_size e)) es) = drop m ((k, e) # es)"
      by (rule exI)
    then show ?thesis using True kv ih by auto
  qed
qed

lemma evict_spec_oversized:
  "cur = int (total_size es) \<Longrightarrow> cap < sz \<Longrightarrow> evict_spec cap sz cur es = (0, [])"
proof (induction es arbitrary: cur)
  case Nil
  then show ?case by simp
next
  case (Cons kv es)
  obtain k e where kv: "kv = (k, e)" by (cases kv)
  have "cur - int (entry_size e) = int (total_size es)"
    using Cons.prems(1) kv by simp
  then have "evict_spec cap sz (cur - int (entry_size e)) es = (0, [])"
    using Cons.IH Cons.prems(2) by simp
  moreover have "cur + int sz > int cap"
    using Cons.prems by simp
  ultimately show ?case using kv by simp
qed

lemma map_of_drop_None: "map_of es key = None \<Longrightarrow> map_of (drop n es) key = None"
  unfolding map_of_eq_None_iff using set_drop_subset [of n es] by auto

lemma evict_spec_suffix: "\<exists>n. snd (evict_spec cap sz cur es) = drop n es"
proof (induction es arbitrary: cur)
  case Nil
  then show ?case by simp
next
  case (Cons kv es)
  obtain k e where kv: "kv = (k, e)" by (cases kv)
  show ?case
  proof (cases "cur + int sz > int cap")
    case False
    have "(k, e) # es = drop 0 ((k, e) # es)" by simp
    then have "\<exists>n. (k, e) # es = drop n ((k, e) # es)" by (rule exI)
    then show ?thesis using False kv by simp
  next
    case True
    from Cons.IH [of "cur - int (entry_size e)"]
    obtain n where "snd (evict_spec cap sz (cur - int (entry_size e)) es) = drop n es"
      by blast
    then have "snd (evict_spec cap sz (cur - int (entry_size e)) es) = drop (Suc n) ((k, e) # es)"
      by simp
    then have "\<exists>m. snd (evict_spec cap sz (cur - int (entry_size e)) es) = drop m ((k, e) # es)"
      by (rule exI)
    then show ?thesis using True kv by simp
  qed
qed

lemma distinct_drop_keys: "distinct (map fst es) \<Longrightarrow> distinct (map fst (drop n es))"
  by (metis distinct_drop drop_map)

lemma set_entry_eq_spec:
  assumes d: "distinct (map fst (cache c))"
  shows "set_entry stringify key dat c = set_spec stringify key dat c"
proof -
  define sz where "sz = getSize stringify dat"
  define removed where "removed = (case map_of (cache c) key of
                       None \<Rightarrow> (currentSize c, cache c)
                     | Some old \<Rightarrow> (currentSize c - int (entry_size old),
                                    filter (\<lambda>kv. fst kv \<noteq> key) (cache c)))"
  define c1 where "c1 = (if map_has key (cache c) then remove key c else c)"
  have c1: "c1 = c\<lparr>currentSize := fst removed, cache := snd removed\<rparr>"
    by (cases "map_of (cache c) key") (simp_all add: c1_def removed_def map_has_def remove_def map_delete_def)
  have d1: "distinct (map fst (cache c1))"
    using d distinct_map_delete [of "cache c" key]
    by (cases "map_of (cache c) key") (simp_all add: c1 removed_def map_delete_def)
  have a1: "map_of (cache c1) key = None"
    using map_of_map_delete [of key "cache c"]
    by (cases "map_of (cache c) key") (simp_all add: c1 removed_def map_delete_def)
  define evicted where "evicted = evict_spec (maxSize c) sz (fst removed) (snd removed)"
  have c2: "evict sz c1 = c1\<lparr>currentSize := fst evicted, cache := snd evicted\<rparr>"
    using evict_spec_eq [OF d1, of sz] by (simp add: evicted_def c1)
  have r1: "snd removed = cache c1" and r2: "maxSize c1 = maxSize c"
    by (simp_all add: c1)
  obtain n where n: "snd evicted = drop n (cache c1)"
    using evict_spec_suffix [of "maxSize c" sz "fst removed" "snd removed"]
    unfolding evicted_def r1 by blast
  have "map_of (snd evicted) key = None"
    unfolding n using a1 by (rule map_of_drop_None)
  then have ms: "map_set key \<lparr>entry_data = dat, entry_size = sz\<rparr> (snd evicted)
      = snd evicted @ [(key, \<lparr>entry_data = dat, entry_size = sz\<rparr>)]"
    by (rule map_set_absent)
  have "set_entry stringify key dat c =
     (evict sz c1)\<lparr>cache := map_set key \<lparr>entry_data = dat, entry_size = sz\<rparr> (cache (evict sz c1)),
            currentSize := currentSize (evict sz c1) + int sz\<rparr>"
    by (simp add: set_entry_def Let_def c1_def sz_def)
  also have "\<dots> = c\<lparr>currentSize := fst evicted + int sz,
            cache := snd evicted @ [(key, \<lparr>entry_data = dat, entry_size = sz\<rparr>)]\<rparr>"
    unfolding c2 using ms by (simp add: c1)
  also have "\<dots> = set_spec stringify key dat c"
    by (simp add: set_spec_def Let_def sz_def removed_def evicted_def)
  finally show ?thesis .
qed

lemma removed_total:
  fixes key :: string
  assumes "distinct (map fst (cache c))" and "currentSize c = int (total_size (cache c))"
  defines "removed \<equiv> (case map_of (cache c) key of
                       None \<Rightarrow> (currentSize c, cache c)
                     | Some old \<Rightarrow> (currentSize c - int (entry_size old),
                                    filter (\<lambda>kv. fst kv \<noteq> key) (cache c)))"
  shows "fst removed = int (total_size (snd removed))"
proof (cases "map_of (cache c) key")
  case None
  then show ?thesis using assms(2) by (simp add: removed_def)
next
  case (Some old)
  then show ?thesis
    using total_size_delete [OF assms(1) Some] assms(2) by (simp add: removed_def map_delete_def)
qed

lemma set_spec_oversized:
  assumes "distinct (map fst (cache c))" and "currentSize c = int (total_size (cache c))"
    and "maxSize c < getSize stringify dat"
  shows "set_spec stringify key dat c =
         c\<lparr>currentSize := int (getSize stringify dat),
           cache := [(key, \<lparr>entry_data = dat, entry_size = getSize stringify dat\<rparr>)]\<rparr>"
proof -
  define removed where "removed = (case map_of (cache c) key of
                       None \<Rightarrow> (currentSize c, cache c)
                     | Some old \<Rightarrow> (currentSize c - int (entry_size old),
                                    filter (\<lambda>kv. fst kv \<noteq> key) (cache c)))"
  have "fst removed = int (total_size (snd removed))"
    unfolding removed_def using assms(1,2) by (rule removed_total)
  then have "evict_spec (maxSize c) (getSize stringify dat) (fst removed) (snd removed) = (0, [])"
    using assms(3) by (rule evict_spec_oversized)
  then show ?thesis
    by (simp add: set_spec_def Let_def removed_def)
qed

lemma cache_inv_new: "cache_inv (new_LRUCache n)"
  by (simp add: cache_inv_def new_LRUCache_def)

lemma cache_inv_clear: "cache_inv (clear c)"
  by (simp add: cache_inv_def clear_def)

lemma get_cache_eq:
  "cache (snd (get key c)) =
     (case map_of (cache c) key of None \<Rightarrow> cache c
      | Some v \<Rightarrow> map_delete key (cache c) @ [(key, v)])"
  by (simp add: get_def map_set_absent map_of_map_delete split: option.splits)

lemma get_fields [simp]:
  "currentSize (snd (get key c)) = currentSize c" "maxSize (snd (get key c)) = maxSize c"
  by (simp_all add: get_def split: option.splits)

lemma keys_map_delete: "fst ` set (map_delete key m) = fst ` set m - {key}"
  by (auto simp: map_delete_def)

lemma cache_inv_get: assumes "cache_inv c" shows "cache_inv (snd (get key c))"
proof (cases "map_of (cache c) key")
  case None
  then show ?thesis using assms by (simp add: get_def)
next
  case (Some v)
  have d: "distinct (map fst (cache c))" and t: "currentSize c = int (total_size (cache c))"
    using assms by (simp_all add: cache_inv_def)
  have ce: "cache (snd (get key c)) = map_delete key (cache c) @ [(key, v)]"
    using Some by (simp add: get_cache_eq)
  have "distinct (map fst (map_delete key (cache c) @ [(key, v)]))"
    using distinct_map_delete [OF d, of key] keys_map_delete [of key "cache c"] by auto
  moreover have "int (total_size (map_delete key (cache c) @ [(key, v)])) = int (total_size (cache c))"
    using total_size_delete [OF d Some] by simp
  moreover have "currentSize c \<le> int (maxSize c) \<or>
      (\<exists>k e. map_delete key (cache c) @ [(key, v)] = [(k, e)] \<and> maxSize c < entry_size e)"
  proof (cases "currentSize c \<le> int (maxSize c)")
    case True
    then show ?thesis by simp
  next
    case False
    then obtain k e where ke: "cache c = [(k, e)]" "maxSize c < entry_size e"
      using assms by (auto simp: cache_inv_def)
    then have "k = key \<and> e = v" using Some by (simp split: if_splits)
    then show ?thesis using ke by (simp add: map_delete_def)
  qed
  ultimately show ?thesis
    unfolding cache_inv_def ce using t by simp
qed

lemma cache_inv_remove: assumes "cache_inv c" shows "cache_inv (remove key c)"
proof (cases "map_of (cache c) key")
  case None
  then show ?thesis using assms by (simp add: remove_def)
next
  case (Some v)
  have d: "distinct (map fst (cache c))" and t: "currentSize c = int (total_size (cache c))"
    using assms by (simp_all add: cache_inv_def)
  have r: "remove key c = c\<lparr>currentSize := currentSize c - int (entry_size v),
                   cache := map_delete key (cache c)\<rparr>"
    using Some by (simp add: remove_def)
  have ts: "int (total_size (map_delete key (cache c))) = currentSize c - int (entry_size v)"
    using total_size_delete [OF d Some] t by simp
  have "currentSize c - int (entry_size v) \<le> int (maxSize c)"
  proof (cases "currentSize c \<le> int (maxSize c)")
    case True
    then show ?thesis by simp
  next
    case False
    then obtain k e where ke: "cache c = [(k, e)]" "maxSize c < entry_size e"
      using assms by (auto simp: cache_inv_def)
    then have "k = key \<and> e = v" using Some by (simp split: if_splits)
    then show ?thesis using ke t by simp
  qed
  then show ?thesis
    unfolding cache_inv_def r using distinct_map_delete [OF d, of key] ts by simp
qed

lemma cache_inv_set: assumes "cache_inv c" shows "cache_inv (set_entry stringify key dat c)"
proof -
  have d: "distinct (map fst (cache c))" and t: "currentSize c = int (total_size (cache c))"
    using assms by (simp_all add: cache_inv_def)
  define sz where "sz = getSize stringify dat"
  define removed where "removed = (case map_of (cache c) key of
                       None \<Rightarrow> (currentSize c, cache c)
                     | Some old \<Rightarrow> (currentSize c - int (entry_size old),
                                    filter (\<lambda>kv. fst kv \<noteq> key) (cache c)))"
  define evicted where "evicted = evict_spec (maxSize c) sz (fst removed) (snd removed)"
  have rt: "fst removed = int (total_size (snd removed))"
    unfolding removed_def using d t by (rule removed_total)
  have rd: "distinct (map fst (snd removed))" and ra: "map_of (snd removed) key = None"
    using d distinct_map_delete [of "cache c" key] map_of_map_delete [of key "cache c"]
    by (cases "map_of (cache c) key"; simp add: removed_def map_delete_def)+
  note props = evict_spec_props [OF rt, of "maxSize c" sz, folded evicted_def]
  from props obtain n where n: "snd evicted = drop n (snd removed)" by blast
  have ed: "distinct (map fst (snd evicted))"
    unfolding n using rd by (rule distinct_drop_keys)
  have ea: "map_of (snd evicted) key = None"
    unfolding n using ra by (rule map_of_drop_None)
  have eq: "set_entry stringify key dat c = c\<lparr>currentSize := fst evicted + int sz,
            cache := snd evicted @ [(key, \<lparr>entry_data = dat, entry_size = sz\<rparr>)]\<rparr>"
    unfolding set_entry_eq_spec [OF d] by (simp add: set_spec_def Let_def sz_def removed_def evicted_def)
  have "distinct (map fst (snd evicted @ [(key, \<lparr>entry_data = dat, entry_size = sz\<rparr>)]))"
    using ed ea by (simp add: map_of_eq_None_iff)
  moreover have "fst evicted + int sz = int (total_size (snd evicted @ [(key, \<lparr>entry_data = dat, entry_size = sz\<rparr>)]))"
    using props by simp
  moreover have "fst evicted + int sz \<le> int (maxSize c) \<or>
     (\<exists>k e. snd evicted @ [(key, \<lparr>entry_data = dat, entry_size = sz\<rparr>)] = [(k, e)] \<and> maxSize c < entry_size e)"
  proof (cases "snd evicted = []")
    case True
    then have "fst evicted = 0" using props by simp
    then show ?thesis using True by auto
  next
    case False
    then show ?thesis using props by simp
  qed
  ultimately show ?thesis
    unfolding cache_inv_def eq by simp
qed

lemma cache_inv_apply_op: "cache_inv c \<Longrightarrow> cache_inv (apply_op stringify c op)"
  by (cases op) (simp_all add: cache_inv_get cache_inv_set cache_inv_remove cache_inv_clear)

lemma cache_inv_foldl: "cache_inv c \<Longrightarrow> cache_inv (foldl (apply_op stringify) c ops)"
  by (induction ops arbitrary: c) (simp_all add: cache_inv_apply_op)

lemma maxSize_remove [simp]: "maxSize (remove key c) = maxSize c"
  by (simp add: remove_def split: option.splits)

lemma maxSize_clear [simp]: "maxSize (clear c) = maxSize c"
  by (simp add: clear_def)

lemma maxSize_evict [simp]: "maxSize (evict sz c) = maxSize c"
proof (induction sz c rule: evict.induct)
  case (1 sz c)
  show ?case
  proof (cases "currentSize c + int sz > int (maxSize c) \<and> length (cache c) > 0")
    case False
    then show ?thesis by (simp add: evict.simps [of sz c])
  next
    case True
    then obtain k e rest where ce: "cache c = (k, e) # rest"
      by (cases "cache c") auto
    have "evict sz c = evict sz (remove k c)"
      using True ce by (simp add: evict.simps [of sz c])
    moreover have "maxSize (evict sz (remove k c)) = maxSize (remove k c)"
      using True ce by (intro "1.IH" [of "(k, e)" rest k e]) simp_all
    ultimately show ?thesis by simp
  qed
qed

lemma maxSize_set_entry [simp]: "maxSize (set_entry stringify key dat c) = maxSize c"
  by (simp add: set_entry_def Let_def)

text \<open>
  Claim C5. After every sequence of get, set, remove and clear operations on a new cache of
  capacity \<open>n\<close>, the size counter is the sum of the sizes of the stored entries, and it is at
  most the capacity unless the cache holds a single entry whose own size exceeds the
  capacity.
\<close>

theorem size_counter_invariant:
  "currentSize (foldl (apply_op stringify) (new_LRUCache n) ops)
     = int (total_size (cache (foldl (apply_op stringify) (new_LRUCache n) ops))) \<and>
   (currentSize (foldl (apply_op stringify) (new_LRUCache n) ops) \<le> int n \<or>
    (\<exists>k e. cache (foldl (apply_op stringify) (new_LRUCache n) ops) = [(k, e)] \<and> n < entry_size e))"
proof -
  have m: "maxSize (foldl (apply_op stringify) c ops) = maxSize c" for c :: "'a LRUCache"
  proof (induction ops arbitrary: c)
    case Nil
    show ?case by simp
  next
    case (Cons op ops)
    have "maxSize (apply_op stringify c op) = maxSize c"
      by (cases op) simp_all
    then show ?case using Cons by simp
  qed
  define c where "c = foldl (apply_op stringify) (new_LRUCache n :: 'a LRUCache) ops"
  have "cache_inv c"
    unfolding c_def using cache_inv_new by (rule cache_inv_foldl)
  moreover have "maxSize c = n"
    unfolding c_def by (simp add: m new_LRUCache_def)
  ultimately show ?thesis
    unfolding c_def [symmetric] cache_inv_def by auto
qed

text \<open>
  Claim C4. On every cache state (the keys of a \<open>Map\<close> are distinct), \<open>set(key, data)\<close> does
  what the specification words: an entry already stored under the key is removed and its
  size subtracted; then, while the size counter plus the new size exceeds the capacity and
  the cache is non-empty, the oldest entry is evicted and its size subtracted; then the new
  entry is appended at the most-recently-used end and its size added. When the counter is
  the sum of the stored sizes and the new entry alone exceeds the capacity, the loop empties
  the cache and the cache afterwards holds exactly the new entry.
\<close>

theorem set_follows_specification:
  assumes "distinct (map fst (cache c))"
  shows "set_entry stringify key dat c = set_spec stringify key dat c \<and>
         (currentSize c = int (total_size (cache c)) \<and> maxSize c < getSize stringify dat \<longrightarrow>
            set_entry stringify key dat c =
              c\<lparr>currentSize := int (getSize stringify dat),
                cache := [(key, \<lparr>entry_data = dat, entry_size = getSize stringify dat\<rparr>)]\<rparr>)"
  using set_entry_eq_spec [OF assms, of stringify key dat] set_spec_oversized [OF assms, of stringify dat key]
  by simp

lemma evict_keeps_last:
  "cache c = xs @ [(key, v)] \<Longrightarrow> key \<notin> fst ` set xs \<Longrightarrow>
   (\<exists>ys. cache (evict sz c) = ys @ [(key, v)] \<and> set ys \<subseteq> set xs) \<or> cache (evict sz c) = []"
proof (induction sz c arbitrary: xs rule: evict.induct)
  case (1 sz c)
  show ?case
  proof (cases "currentSize c + int sz > int (maxSize c) \<and> length (cache c) > 0")
    case False
    then have "evict sz c = c" by (simp add: evict.simps [of sz c])
    then show ?thesis using "1.prems"(1) by auto
  next
    case True
    show ?thesis
    proof (cases xs)
      case Nil
      then have "evict sz c = evict sz (remove key c)"
        using True "1.prems"(1) by (simp add: evict.simps [of sz c])
      moreover have "cache (remove key c) = []"
        using Nil "1.prems"(1) by (simp add: remove_def map_delete_def)
      moreover have "evict sz (remove key c) = remove key c"
        using \<open>cache (remove key c) = []\<close> by (simp add: evict.simps [of sz "remove key c"])
      ultimately show ?thesis by simp
    next
      case (Cons kv xs')
      obtain k e where kv: "kv = (k, e)" by (cases kv)
      have ne: "k \<noteq> key" using Cons kv "1.prems"(2) by auto
      have ce: "cache c = (k, e) # (xs' @ [(key, v)])"
        using Cons kv "1.prems"(1) by simp
      have ev: "evict sz c = evict sz (remove k c)"
        using True ce by (simp add: evict.simps [of sz c])
      have rc: "cache (remove k c) = filter (\<lambda>kv. fst kv \<noteq> k) xs' @ [(key, v)]"
        using ce ne by (simp add: remove_def map_delete_def)
      have nk: "key \<notin> fst ` set (filter (\<lambda>kv. fst kv \<noteq> k) xs')"
        using "1.prems"(2) Cons by auto
      have "(\<exists>ys. cache (evict sz (remove k c)) = ys @ [(key, v)] \<and> set ys \<subseteq> set (filter (\<lambda>kv. fst kv \<noteq> k) xs'))
            \<or> cache (evict sz (remove k c)) = []"
        using True ce rc nk by (intro "1.IH" [of "(k, e)" "xs' @ [(key, v)]" k e]) simp_all
      then show ?thesis
        unfolding ev using Cons by auto
    qed
  qed
qed

lemma get_present:
  "map_of (cache c) key = Some v \<Longrightarrow>
   get key c = (Some (entry_data v), c\<lparr>cache := filter (\<lambda>kv. fst kv \<noteq> key) (cache c) @ [(key, v)]\<rparr>)"
  using map_set_absent [OF map_of_map_delete, of key v "cache c"]
  by (simp add: get_def map_delete_def)

lemma set_after_get:
  assumes "map_of (cache c) key = Some v" and "k' \<noteq> key"
  shows "key \<in> fst ` set (cache (set_entry stringify k' dat (snd (get key c)))) \<or>
         cache (set_entry stringify k' dat (snd (get key c)))
           = [(k', \<lparr>entry_data = dat, entry_size = getSize stringify dat\<rparr>)]"
proof -
  define c' where "c' = snd (get key c)"
  define xs where "xs = filter (\<lambda>kv. fst kv \<noteq> key) (cache c)"
  have cc: "cache c' = xs @ [(key, v)]"
    using get_present [OF assms(1)] by (simp add: c'_def xs_def)
  define c1 where "c1 = (if map_has k' (cache c') then remove k' c' else c')"
  have "cache c1 = filter (\<lambda>kv. fst kv \<noteq> k') (cache c')"
    using map_delete_absent [of "cache c'" k']
    by (simp add: c1_def map_has_def remove_def map_delete_def split: option.splits)
  then have c1c: "cache c1 = filter (\<lambda>kv. fst kv \<noteq> k') xs @ [(key, v)]"
    using cc assms(2) by simp
  have nk: "key \<notin> fst ` set (filter (\<lambda>kv. fst kv \<noteq> k') xs)"
    by (auto simp: xs_def)
  define sz where "sz = getSize stringify dat"
  have se: "cache (set_entry stringify k' dat c')
      = map_set k' \<lparr>entry_data = dat, entry_size = sz\<rparr> (cache (evict sz c1))"
    by (simp add: set_entry_def Let_def c1_def sz_def)
  from evict_keeps_last [OF c1c nk, of sz]
  show ?thesis
  proof
    assume "\<exists>ys. cache (evict sz c1) = ys @ [(key, v)] \<and> set ys \<subseteq> set (filter (\<lambda>kv. fst kv \<noteq> k') xs)"
    then have "key \<in> fst ` set (cache (evict sz c1))" by force
    then have "key \<in> fst ` set (map_set k' \<lparr>entry_data = dat, entry_size = sz\<rparr> (cache (evict sz c1)))"
      using assms(2) by (force simp: map_set_def)
    then show ?thesis unfolding c'_def [symmetric] se by simp
  next
    assume "cache (evict sz c1) = []"
    then show ?thesis unfolding c'_def [symmetric] se by (simp add: map_set_def map_has_def sz_def)
  qed
qed

text \<open>
  Claim C6. \<open>get(key)\<close> on an absent key returns \<open>null\<close> and leaves the cache as it is. On a
  present key it returns the stored data and moves the entry to the end of the order, the
  other entries keeping their order and the capacity and the size counter their values;
  and a later \<open>set\<close> of another key either keeps the key or has evicted every other entry
  too, so that the cache then holds the new entry only.
\<close>

theorem get_promotes:
  "(map_of (cache c) key = None \<longrightarrow> get key c = (None, c)) \<and>
   (\<forall>v. map_of (cache c) key = Some v \<longrightarrow>
      get key c = (Some (entry_data v),
                   c\<lparr>cache := filter (\<lambda>kv. fst kv \<noteq> key) (cache c) @ [(key, v)]\<rparr>) \<and>
      (\<forall>stringify k' dat. k' \<noteq> key \<longrightarrow>
         key \<in> fst ` set (cache (set_entry stringify k' dat (snd (get key c)))) \<or>
         cache (set_entry stringify k' dat (snd (get key c)))
           = [(k', \<lparr>entry_data = dat, entry_size = getSize stringify dat\<rparr>)]))"
proof (intro conjI allI impI)
  assume "map_of (cache c) key = None"
  then show "get key c = (None, c)" by (simp add: get_def)
next
  fix v assume "map_of (cache c) key = Some v"
  then show "get key c = (Some (entry_data v),
                   c\<lparr>cache := filter (\<lambda>kv. fst kv \<noteq> key) (cache c) @ [(key, v)]\<rparr>)"
    by (rule get_present)
next
  fix v stringify k' dat
  assume "map_of (cache c) key = Some v" and "k' \<noteq> key"
  then show "key \<in> fst ` set (cache (set_entry stringify k' dat (snd (get key c)))) \<or>
         cache (set_entry stringify k' dat (snd (get key c)))
           = [(k', \<lparr>entry_data = dat, entry_size = getSize stringify dat\<rparr>)]"
    by (rule set_after_get)
qed

text \<open>
  A cache of capacity 10 holding two entries of size 4: storing an entry of size 12 empties
  it; storing one of size 4 evicts the oldest entry only.
\<close>

theorem set_follows_specification_witness:
  "distinct (map fst (cache example_cache)) \<and>
   currentSize example_cache = int (total_size (cache example_cache)) \<and>
   maxSize example_cache < getSize (\<lambda>s. s) ''zzzzzz'' \<and>
   set_entry (\<lambda>s. s) ''c'' ''zzzzzz'' example_cache = set_spec (\<lambda>s. s) ''c'' ''zzzzzz'' example_cache \<and>
   set_entry (\<lambda>s. s) ''c'' ''zzzzzz'' example_cache =
     \<lparr>maxSize = 10, currentSize = 12,
      cache = [(''c'', \<lparr>entry_data = ''zzzzzz'', entry_size = 12\<rparr>)]\<rparr> \<and>
   set_entry (\<lambda>s. s) ''c'' ''zz'' example_cache =
     \<lparr>maxSize = 10, currentSize = 8,
      cache = [(''b'', \<lparr>entry_data = ''yy'', entry_size = 4\<rparr>),
               (''c'', \<lparr>entry_data = ''zz'', entry_size = 4\<rparr>)]\<rparr>"
  using set_follows_specification [of example_cache "\<lambda>s. s" "''c''" "''zzzzzz''"]
    set_follows_specification [of example_cache "\<lambda>s. s" "''c''" "''zz''"]
  by (simp add: total_size_def getSize_def set_spec_def)

text \<open>
  On the same cache, \<open>get\<close> of the oldest key moves it behind the other; the next \<open>set\<close>, which
  needs room, evicts the other key and keeps it.
\<close>

theorem get_promotes_witness:
  "map_of (cache example_cache) ''a'' = Some \<lparr>entry_data = ''xx'', entry_size = 4\<rparr> \<and>
   get ''a'' example_cache =
     (Some ''xx'',
      \<lparr>maxSize = 10, currentSize = 8,
       cache = [(''b'', \<lparr>entry_data = ''yy'', entry_size = 4\<rparr>),
                (''a'', \<lparr>entry_data = ''xx'', entry_size = 4\<rparr>)]\<rparr>) \<and>
   ''a'' \<in> fst ` set (cache (set_entry (\<lambda>s. s) ''c'' ''zz'' (snd (get ''a'' example_cache)))) \<and>
   cache (set_entry (\<lambda>s. s) ''c'' ''zz'' (snd (get ''a'' example_cache)))
     \<noteq> [(''c'', \<lparr>entry_data = ''zz'', entry_size = getSize (\<lambda>s. s) ''zz''\<rparr>)] \<and>
   map_of (cache example_cache) ''q'' = None \<and>
   get ''q'' example_cache = (None, example_cache)"
proof -
  have p: "map_of (cache example_cache) ''a'' = Some \<lparr>entry_data = ''xx'', entry_size = 4\<rparr>"
    by simp
  have q: "map_of (cache example_cache) ''q'' = None"
    by simp
  have g: "get ''a'' example_cache =
     (Some ''xx'',
      \<lparr>maxSize = 10, currentSize = 8,
       cache = [(''b'', \<lparr>entry_data = ''yy'', entry_size = 4\<rparr>),
                (''a'', \<lparr>entry_data = ''xx'', entry_size = 4\<rparr>)]\<rparr>)"
    using get_promotes [of example_cache "''a''"] p by simp
  have d: "distinct (map fst (cache (snd (get ''a'' example_cache))))"
    unfolding g by simp
  have s: "cache (set_entry (\<lambda>s. s) ''c'' ''zz'' (snd (get ''a'' example_cache)))
     = [(''a'', \<lparr>entry_data = ''xx'', entry_size = 4\<rparr>), (''c'', \<lparr>entry_data = ''zz'', entry_size = 4\<rparr>)]"
    unfolding set_entry_eq_spec [OF d] unfolding g
    by (simp add: set_spec_def getSize_def)
  show ?thesis
    using get_promotes [of example_cache "''q''"] p q g s by simp
qed

section \<open>Properties of the scan and of the lookup\<close>

lemma exclude_holes_char:
  "j \<le> length coords \<Longrightarrow>
   exclude_holes pip coords point j =
     (\<forall>hole \<in> set (drop j coords). \<not> pip (Some hole) point,
      map (\<lambda>hole. PointInPolygonCall (Some hole) point)
        (upto_first (\<lambda>hole. pip (Some hole) point) (drop j coords)))"
proof (induction pip coords point j rule: exclude_holes.induct)
  case (1 pip coords point j)
  show ?case
  proof (cases "j < length coords")
    case False
    then show ?thesis by (simp add: exclude_holes.simps [of pip coords point j])
  next
    case True
    have d: "drop j coords = coords ! j # drop (j + 1) coords"
      using True by (simp add: Cons_nth_drop_Suc)
    have a: "at_index coords j = Some (coords ! j)"
      using True by (simp add: at_index_def)
    show ?thesis
    proof (cases "pip (Some (coords ! j)) point")
      case True
      then show ?thesis
        using \<open>j < length coords\<close> a d by (simp add: exclude_holes.simps [of pip coords point j])
    next
      case False
      have "exclude_holes pip coords point (j + 1) =
        (\<forall>hole \<in> set (drop (j + 1) coords). \<not> pip (Some hole) point,
         map (\<lambda>hole. PointInPolygonCall (Some hole) point)
           (upto_first (\<lambda>hole. pip (Some hole) point) (drop (j + 1) coords)))"
        using True False a by (intro "1.IH") simp_all
      then show ?thesis
        using \<open>j < length coords\<close> False a d by (simp add: exclude_holes.simps [of pip coords point j])
    qed
  qed
qed

lemma rings_test_char:
  "rings_test pip coords point = (polygon_rule pip coords point, polygon_calls pip coords point)"
proof (cases "pip (at_index coords 0) point \<and> length coords > 1")
  case True
  then show ?thesis
    using exclude_holes_char [of 1 coords pip point]
    by (simp add: rings_test_def polygon_rule_def polygon_calls_def Let_def)
next
  case False
  then have "pip (at_index coords 0) point \<Longrightarrow> drop 1 coords = []"
    by simp
  then show ?thesis
    using False by (auto simp: rings_test_def polygon_rule_def polygon_calls_def Let_def)
qed

lemma multi_test_char:
  "multi_test pip polys point =
     (\<exists>coords \<in> set polys. polygon_rule pip coords point,
      concat (map (\<lambda>coords. polygon_calls pip coords point)
        (upto_first (\<lambda>coords. polygon_rule pip coords point) polys)))"
  by (induction polys) (simp_all add: rings_test_char)

text \<open>
  Claim C1. For every point, the test of a Polygon returns true exactly when the point is in
  the outer ring \<open>coordinates[0]\<close> and in none of the hole rings \<open>coordinates[1..]\<close>, and it
  calls \<open>pointInPolygon\<close> on the outer ring and then, only when that test passed, on the
  holes in order up to and including the first hole that contains the point. The test of a
  MultiPolygon returns true exactly when some sub-polygon satisfies the Polygon rule, and
  it tests the sub-polygons in list order up to and including the first that satisfies it.
\<close>

theorem containment_rule:
  "geometry_test pip (Polygon rings) point
     = (polygon_rule pip rings point, polygon_calls pip rings point) \<and>
   geometry_test pip (MultiPolygon polys) point
     = (\<exists>rings \<in> set polys. polygon_rule pip rings point,
        concat (map (\<lambda>rings. polygon_calls pip rings point)
          (upto_first (\<lambda>rings. polygon_rule pip rings point) polys)))"
  by (simp add: geometry_test_def rings_test_char multi_test_char)

text \<open>
  A square with two holes: a point in the square and in no hole (both holes tested), a point
  in the first hole (the second hole is not tested), a point outside (no hole is tested);
  and a MultiPolygon whose second sub-polygon contains the point (the third is not tested).
\<close>

theorem containment_rule_witness:
  "geometry_test in_box (Polygon [(0, 0, 10, 10), (4, 4, 6, 6), (7, 7, 9, 9)]) [JNumber 1, JNumber 1]
     = (True, [PointInPolygonCall (Some (0, 0, 10, 10)) [JNumber 1, JNumber 1],
               PointInPolygonCall (Some (4, 4, 6, 6)) [JNumber 1, JNumber 1],
               PointInPolygonCall (Some (7, 7, 9, 9)) [JNumber 1, JNumber 1]]) \<and>
   geometry_test in_box (Polygon [(0, 0, 10, 10), (4, 4, 6, 6), (7, 7, 9, 9)]) [JNumber 5, JNumber 5]
     = (False, [PointInPolygonCall (Some (0, 0, 10, 10)) [JNumber 5, JNumber 5],
                PointInPolygonCall (Some (4, 4, 6, 6)) [JNumber 5, JNumber 5]]) \<and>
   geometry_test in_box (Polygon [(0, 0, 10, 10), (4, 4, 6, 6), (7, 7, 9, 9)]) [JNumber 20, JNumber 5]
     = (False, [PointInPolygonCall (Some (0, 0, 10, 10)) [JNumber 20, JNumber 5]]) \<and>
   geometry_test in_box (MultiPolygon [[(20, 20, 30, 30)], [(0, 0, 10, 10), (4, 4, 6, 6)], [(0, 0, 3, 3)]])
       [JNumber 1, JNumber 1]
     = (True, [PointInPolygonCall (Some (20, 20, 30, 30)) [JNumber 1, JNumber 1],
               PointInPolygonCall (Some (0, 0, 10, 10)) [JNumber 1, JNumber 1],
               PointInPolygonCall (Some (4, 4, 6, 6)) [JNumber 1, JNumber 1]])"
  using containment_rule [of in_box "[(0, 0, 10, 10), (4, 4, 6, 6), (7, 7, 9, 9)]" "[JNumber 1, JNumber 1]"]
    containment_rule [of in_box "[(0, 0, 10, 10), (4, 4, 6, 6), (7, 7, 9, 9)]" "[JNumber 5, JNumber 5]"]
    containment_rule [of in_box "[(0, 0, 10, 10), (4, 4, 6, 6), (7, 7, 9, 9)]" "[JNumber 20, JNumber 5]"]
    containment_rule [of in_box _ "[JNumber 1, JNumber 1]"
       "[[(20, 20, 30, 30)], [(0, 0, 10, 10), (4, 4, 6, 6)], [(0, 0, 3, 3)]]"]
  by (simp add: polygon_rule_def polygon_calls_def in_box_def at_index_def)

lemma scan_char:
  "scan (pointInPolygon e) fs [lng, lat] i =
     (\<exists>f \<in> set fs. feature_contains e lat lng f,
      i + first_index (feature_contains e lat lng) fs,
      concat (map (feature_calls e lat lng) (upto_first (feature_contains e lat lng) fs)))"
proof (induction fs arbitrary: i)
  case Nil
  show ?case by (simp add: first_index_def)
next
  case (Cons f fs)
  show ?case
    by (cases "geometry_test (pointInPolygon e) (geometry f) [lng, lat]")
       (simp add: Cons.IH feature_contains_def feature_calls_def first_index_def)
qed

lemma first_index_found:
  assumes "j < length xs" and "P (xs ! j)"
  shows "first_index P xs \<le> j" and "first_index P xs < length xs"
    and "P (xs ! first_index P xs)" and "\<forall>m < first_index P xs. \<not> P (xs ! m)"
    and "upto_first P xs = take (Suc (first_index P xs)) xs"
proof -
  show le: "first_index P xs \<le> j"
  proof (rule ccontr)
    assume "\<not> first_index P xs \<le> j"
    then have "j < length (takeWhile (\<lambda>x. \<not> P x) xs)" by (simp add: first_index_def)
    then have "\<not> P (xs ! j)"
      using nth_mem [of j "takeWhile (\<lambda>x. \<not> P x) xs"] set_takeWhileD [of "xs ! j" "\<lambda>x. \<not> P x" xs]
      by (simp add: takeWhile_nth)
    then show False using assms(2) by simp
  qed
  then show lt: "first_index P xs < length xs" using assms(1) by simp
  then show "P (xs ! first_index P xs)"
    using nth_length_takeWhile [of "\<lambda>x. \<not> P x" xs] by (simp add: first_index_def)
  show "\<forall>m < first_index P xs. \<not> P (xs ! m)"
  proof (intro allI impI)
    fix m assume "m < first_index P xs"
    then have m: "m < length (takeWhile (\<lambda>x. \<not> P x) xs)" by (simp add: first_index_def)
    then show "\<not> P (xs ! m)"
      using nth_mem [OF m] set_takeWhileD [of "takeWhile (\<lambda>x. \<not> P x) xs ! m" "\<lambda>x. \<not> P x" xs]
      by (simp add: takeWhile_nth)
  qed
  have "\<exists>x \<in> set xs. P x" using assms nth_mem by blast
  then show "upto_first P xs = take (Suc (first_index P xs)) xs"
    by (induction xs) (auto simp: first_index_def)
qed

lemma upto_first_none: "\<forall>x \<in> set xs. \<not> P x \<Longrightarrow> upto_first P xs = xs"
  by (induction xs) auto

lemma cacheKey_numbers:
  "cacheKey ns (JNumber a) (JNumber b) dataType =
     Inr (ns a @ ''_'' @ ns b @ ''_'' @ (case dataType of None \<Rightarrow> ''null'' | Some s \<Rightarrow> s))"
  by (simp add: cacheKey_def)

lemma truthy_build_result [simp]: "truthy (build_result dataType country)"
  by (simp add: build_result_def Let_def)

lemma build_result_not_Null [simp]: "build_result dataType country \<noteq> Null"
  by (simp add: build_result_def Let_def)

text \<open>What the code after a cache miss does, by whether a feature contains the point.\<close>

lemma scan_and_store_char:
  "scan_and_store e cfg key lat lng dataType =
     (let fs = admin1_features e;
          n = first_index (feature_contains e lat lng) fs;
          calls = concat (map (feature_calls e lat lng) (upto_first (feature_contains e lat lng) fs))
      in if \<exists>f \<in> set fs. feature_contains e lat lng f
         then (case cfg of
                 None \<Rightarrow> Inr (build_result dataType (fs ! n), None, calls)
               | Some c \<Rightarrow> Inr (build_result dataType (fs ! n),
                                Some (set_entry (json_stringify e) key (build_result dataType (fs ! n)) c),
                                calls @ [CacheSet key]))
         else Inr (Null, cfg, calls))"
proof (cases "\<exists>f \<in> set (admin1_features e). feature_contains e lat lng f")
  case False
  then show ?thesis
    by (cases cfg) (simp_all add: scan_and_store_def scan_char Let_def)
next
  case True
  then obtain j where "j < length (admin1_features e)" "feature_contains e lat lng (admin1_features e ! j)"
    by (metis in_set_conv_nth)
  then have "first_index (feature_contains e lat lng) (admin1_features e) < length (admin1_features e)"
    by (rule first_index_found(2))
  then show ?thesis
    using True by (cases cfg) (simp_all add: scan_and_store_def scan_char Let_def at_index_def)
qed

lemma reverseGeolocation_no_cache:
  "reverseGeolocation e None (JNumber a) (JNumber b) dataType =
     scan_and_store e None
       (numberToString e a @ ''_'' @ numberToString e b @ ''_'' @
          (case dataType of None \<Rightarrow> ''null'' | Some s \<Rightarrow> s))
       (JNumber a) (JNumber b) dataType"
  by (simp add: reverseGeolocation_def cacheKey_numbers)

lemma reverseGeolocation_miss:
  assumes "cacheKey (numberToString e) (JNumber a) (JNumber b) dataType = Inr key"
    and "map_of (cache c) key = None"
  shows "reverseGeolocation e (Some c) (JNumber a) (JNumber b) dataType =
     (case scan_and_store e (Some c) key (JNumber a) (JNumber b) dataType of
        Inl ex \<Rightarrow> Inl ex
      | Inr (result, cfg, calls) \<Rightarrow> Inr (result, cfg, CacheGet key # calls))"
  using assms by (simp add: reverseGeolocation_def get_def)

lemma lookup_found:
  assumes "j < length (admin1_features e)"
    and "feature_contains e (JNumber a) (JNumber b) (admin1_features e ! j)"
  shows "let fs = admin1_features e;
             n = first_index (feature_contains e (JNumber a) (JNumber b)) fs;
             calls = concat (map (feature_calls e (JNumber a) (JNumber b)) (take (Suc n) fs))
         in n \<le> j \<and> feature_contains e (JNumber a) (JNumber b) (fs ! n) \<and>
            (\<forall>m < n. \<not> feature_contains e (JNumber a) (JNumber b) (fs ! m)) \<and>
            scan (pointInPolygon e) fs [JNumber b, JNumber a] 0 = (True, n, calls) \<and>
            reverseGeolocation e None (JNumber a) (JNumber b) dataType
              = Inr (build_result dataType (fs ! n), None, calls) \<and>
            (\<forall>c key. cacheKey (numberToString e) (JNumber a) (JNumber b) dataType = Inr key \<and>
                 map_of (cache c) key = None \<longrightarrow>
               reverseGeolocation e (Some c) (JNumber a) (JNumber b) dataType
                 = Inr (build_result dataType (fs ! n),
                        Some (set_entry (json_stringify e) key (build_result dataType (fs ! n)) c),
                        CacheGet key # calls @ [CacheSet key]))"
proof -
  define fs where "fs = admin1_features e"
  define n where "n = first_index (feature_contains e (JNumber a) (JNumber b)) fs"
  define calls where "calls = concat (map (feature_calls e (JNumber a) (JNumber b)) (take (Suc n) fs))"
  have jl: "j < length fs" and jc: "feature_contains e (JNumber a) (JNumber b) (fs ! j)"
    using assms by (simp_all add: fs_def)
  note fi = first_index_found [of j fs "feature_contains e (JNumber a) (JNumber b)", OF jl jc, folded n_def]
  have ex: "\<exists>f \<in> set fs. feature_contains e (JNumber a) (JNumber b) f"
    using assms nth_mem unfolding fs_def by blast
  have sc: "scan (pointInPolygon e) fs [JNumber b, JNumber a] 0 = (True, n, calls)"
    using ex fi(5) by (simp add: scan_char n_def calls_def)
  have sas: "scan_and_store e cfg key (JNumber a) (JNumber b) dataType =
     (case cfg of
        None \<Rightarrow> Inr (build_result dataType (fs ! n), None, calls)
      | Some c \<Rightarrow> Inr (build_result dataType (fs ! n),
                       Some (set_entry (json_stringify e) key (build_result dataType (fs ! n)) c),
                       calls @ [CacheSet key]))" for cfg key
    using ex fi(5)
    by (cases cfg) (simp_all add: scan_and_store_char Let_def fs_def [symmetric] n_def calls_def)
  have r1: "reverseGeolocation e None (JNumber a) (JNumber b) dataType
              = Inr (build_result dataType (fs ! n), None, calls)"
    by (simp add: reverseGeolocation_no_cache sas)
  have r2: "reverseGeolocation e (Some c) (JNumber a) (JNumber b) dataType
                 = Inr (build_result dataType (fs ! n),
                        Some (set_entry (json_stringify e) key (build_result dataType (fs ! n)) c),
                        CacheGet key # calls @ [CacheSet key])"
    if "cacheKey (numberToString e) (JNumber a) (JNumber b) dataType = Inr key"
      and "map_of (cache c) key = None" for c key
    using reverseGeolocation_miss [OF that] by (simp add: sas)
  show ?thesis
    unfolding Let_def fs_def [symmetric] n_def [symmetric] calls_def [symmetric]
    using fi(1,3,4) sc r1 r2 by blast
qed

lemma show_int_7: "show_int 7 = ''7''" and show_int_10: "show_int 10 = ''10''"
  and show_int_12: "show_int 12 = ''12''"
  by (simp_all add: show_int_def show_nat.simps)

lemma contains_A_7: "feature_contains (example_env fs) (JNumber 7) (JNumber 7) square_A"
  by (simp add: feature_contains_def example_env_def square_A_def geometry_test_def rings_test_char
      polygon_rule_def in_box_def at_index_def)

lemma contains_B_7: "feature_contains (example_env fs) (JNumber 7) (JNumber 7) square_B"
  by (simp add: feature_contains_def example_env_def square_B_def geometry_test_def rings_test_char
      polygon_rule_def in_box_def at_index_def)

lemma calls_A_7:
  "feature_calls (example_env fs) (JNumber 7) (JNumber 7) square_A
     = [PointInPolygonCall (Some (0, 0, 10, 10)) [JNumber 7, JNumber 7]]"
  by (simp add: feature_calls_def example_env_def square_A_def geometry_test_def rings_test_char
      polygon_calls_def in_box_def at_index_def)

lemma calls_B_7:
  "feature_calls (example_env fs) (JNumber 7) (JNumber 7) square_B
     = [PointInPolygonCall (Some (20, 20, 30, 30)) [JNumber 7, JNumber 7],
        PointInPolygonCall (Some (5, 5, 15, 15)) [JNumber 7, JNumber 7],
        PointInPolygonCall (Some (11, 11, 13, 13)) [JNumber 7, JNumber 7]]"
  by (simp add: feature_calls_def example_env_def square_B_def geometry_test_def rings_test_char
      polygon_calls_def polygon_rule_def in_box_def at_index_def)

lemma endsWith_tilde: "endsWith s ''~'' \<longleftrightarrow> s \<noteq> [] \<and> last s = CHR ''~''"
proof (cases s rule: rev_cases)
  case Nil
  then show ?thesis by (simp add: endsWith_def)
next
  case (snoc ys y)
  then show ?thesis by (auto simp: endsWith_def)
qed

lemma map_set_new: "key \<notin> set (map fst m) \<Longrightarrow> map_set key v m = m @ [(key, v)]"
  by (rule map_set_absent) (simp add: map_of_eq_None_iff)

lemma derive_properties_eq:
  "derive_properties props =
     [(''continent_code'', cont_code props), (''country_a2'', iso_a2 props),
      (''country_a3'', adm0_a3 props), (''region_code'', region_code props)] @
     (if iso_3166_2 props \<noteq> [] \<and> last (iso_3166_2 props) \<noteq> CHR ''~''
      then [(''state_code'', JString (iso_3166_2 props))] else [])"
proof -
  have 1: "map_set ''continent_code'' (cont_code props) [] = [(''continent_code'', cont_code props)]"
    by (simp add: map_set_new)
  have 2: "map_set ''country_a2'' (iso_a2 props) [(''continent_code'', cont_code props)]
      = [(''continent_code'', cont_code props), (''country_a2'', iso_a2 props)]"
    by (simp add: map_set_new)
  have 3: "map_set ''country_a3'' (adm0_a3 props)
        [(''continent_code'', cont_code props), (''country_a2'', iso_a2 props)]
      = [(''continent_code'', cont_code props), (''country_a2'', iso_a2 props),
         (''country_a3'', adm0_a3 props)]"
    by (simp add: map_set_new)
  have 4: "map_set ''region_code'' (region_code props)
        [(''continent_code'', cont_code props), (''country_a2'', iso_a2 props),
         (''country_a3'', adm0_a3 props)]
      = [(''continent_code'', cont_code props), (''country_a2'', iso_a2 props),
         (''country_a3'', adm0_a3 props), (''region_code'', region_code props)]"
    by (simp add: map_set_new)
  have 5: "map_set ''state_code'' v
        [(''continent_code'', cont_code props), (''country_a2'', iso_a2 props),
         (''country_a3'', adm0_a3 props), (''region_code'', region_code props)]
      = [(''continent_code'', cont_code props), (''country_a2'', iso_a2 props),
         (''country_a3'', adm0_a3 props), (''region_code'', region_code props),
         (''state_code'', v)]" for v
    by (simp add: map_set_new)
  show ?thesis
    unfolding derive_properties_def Let_def 1 2 3 4 5 endsWith_tilde by simp
qed

lemma result_A:
  "build_result None square_A =
     PropertiesObject [(''continent_code'', JString ''NA''), (''country_a2'', JString ''AA''),
       (''country_a3'', JString ''AAA''), (''region_code'', JString ''A-W''),
       (''state_code'', JString ''AA-KS'')]"
  by (simp add: build_result_def derive_properties_eq square_A_def clone_def)

lemma result_B:
  "build_result None square_B =
     PropertiesObject [(''continent_code'', JString ''OC''), (''country_a2'', JString ''BB''),
       (''country_a3'', JString ''BBB''), (''region_code'', JNull)]"
  by (simp add: build_result_def derive_properties_eq square_B_def clone_def)

text \<open>
  Claim C2. When the geometry of some feature of the index contains the query point, the
  scan stops at the first such feature in index order: the counter is its index \<open>n\<close>, no
  feature before it contains the point, the calls of \<open>pointInPolygon\<close> are those of the
  features up to and including it (no later feature is tested), and the lookup returns the
  result built from that feature, without a cache and after a cache miss alike.
\<close>

theorem first_match_wins:
  assumes "j < length (admin1_features e)"
    and "feature_contains e (JNumber a) (JNumber b) (admin1_features e ! j)"
  shows "let fs = admin1_features e;
             n = first_index (feature_contains e (JNumber a) (JNumber b)) fs;
             calls = concat (map (feature_calls e (JNumber a) (JNumber b)) (take (Suc n) fs))
         in n \<le> j \<and> feature_contains e (JNumber a) (JNumber b) (fs ! n) \<and>
            (\<forall>m < n. \<not> feature_contains e (JNumber a) (JNumber b) (fs ! m)) \<and>
            scan (pointInPolygon e) fs [JNumber b, JNumber a] 0 = (True, n, calls) \<and>
            reverseGeolocation e None (JNumber a) (JNumber b) dataType
              = Inr (build_result dataType (fs ! n), None, calls) \<and>
            (\<forall>c key. cacheKey (numberToString e) (JNumber a) (JNumber b) dataType = Inr key \<and>
                 map_of (cache c) key = None \<longrightarrow>
               reverseGeolocation e (Some c) (JNumber a) (JNumber b) dataType
                 = Inr (build_result dataType (fs ! n),
                        Some (set_entry (json_stringify e) key (build_result dataType (fs ! n)) c),
                        CacheGet key # calls @ [CacheSet key]))"
  using lookup_found [OF assms, of dataType] .

text \<open>
  Two overlapping features that both contain the point (7, 7): the lookup returns the
  properties of whichever comes first in the index, and tests nothing of the other.
\<close>

theorem first_match_wins_witness:
  "feature_contains (example_env [square_A, square_B]) (JNumber 7) (JNumber 7) square_A \<and>
   feature_contains (example_env [square_A, square_B]) (JNumber 7) (JNumber 7) square_B \<and>
   reverseGeolocation (example_env [square_A, square_B]) None (JNumber 7) (JNumber 7) None
     = Inr (PropertiesObject [(''continent_code'', JString ''NA''), (''country_a2'', JString ''AA''),
              (''country_a3'', JString ''AAA''), (''region_code'', JString ''A-W''),
              (''state_code'', JString ''AA-KS'')],
            None,
            [PointInPolygonCall (Some (0, 0, 10, 10)) [JNumber 7, JNumber 7]]) \<and>
   reverseGeolocation (example_env [square_B, square_A]) None (JNumber 7) (JNumber 7) None
     = Inr (PropertiesObject [(''continent_code'', JString ''OC''), (''country_a2'', JString ''BB''),
              (''country_a3'', JString ''BBB''), (''region_code'', JNull)],
            None,
            [PointInPolygonCall (Some (20, 20, 30, 30)) [JNumber 7, JNumber 7],
             PointInPolygonCall (Some (5, 5, 15, 15)) [JNumber 7, JNumber 7],
             PointInPolygonCall (Some (11, 11, 13, 13)) [JNumber 7, JNumber 7]])"
proof -
  let ?AB = "example_env [square_A, square_B]" and ?BA = "example_env [square_B, square_A]"
  have a: "admin1_features (example_env fs) = fs" for fs
    by (simp add: example_env_def)
  have 1: "first_index (feature_contains ?AB (JNumber 7) (JNumber 7)) [square_A, square_B] = 0"
    using contains_A_7 by (simp add: first_index_def)
  have 2: "first_index (feature_contains ?BA (JNumber 7) (JNumber 7)) [square_B, square_A] = 0"
    using contains_B_7 by (simp add: first_index_def)
  have h1: "1 < length (admin1_features ?AB)" and h2: "1 < length (admin1_features ?BA)"
    by (simp_all add: a)
  have c1: "feature_contains ?AB (JNumber 7) (JNumber 7) (admin1_features ?AB ! 1)"
    by (simp add: a contains_B_7)
  have c2: "feature_contains ?BA (JNumber 7) (JNumber 7) (admin1_features ?BA ! 1)"
    by (simp add: a contains_A_7)
  have "reverseGeolocation ?AB None (JNumber 7) (JNumber 7) None
      = Inr (build_result None ([square_A, square_B] ! 0), None,
             concat (map (feature_calls ?AB (JNumber 7) (JNumber 7)) (take (Suc 0) [square_A, square_B])))"
    using first_match_wins [OF h1 c1, of None] unfolding Let_def a 1 by (elim conjE)
  then have r1: "reverseGeolocation ?AB None (JNumber 7) (JNumber 7) None
      = Inr (PropertiesObject [(''continent_code'', JString ''NA''), (''country_a2'', JString ''AA''),
              (''country_a3'', JString ''AAA''), (''region_code'', JString ''A-W''),
              (''state_code'', JString ''AA-KS'')],
            None,
            [PointInPolygonCall (Some (0, 0, 10, 10)) [JNumber 7, JNumber 7]])"
    by (simp add: calls_A_7 result_A)
  have "reverseGeolocation ?BA None (JNumber 7) (JNumber 7) None
      = Inr (build_result None ([square_B, square_A] ! 0), None,
             concat (map (feature_calls ?BA (JNumber 7) (JNumber 7)) (take (Suc 0) [square_B, square_A])))"
    using first_match_wins [OF h2 c2, of None] unfolding Let_def a 2 by (elim conjE)
  then have r2: "reverseGeolocation ?BA None (JNumber 7) (JNumber 7) None
      = Inr (PropertiesObject [(''continent_code'', JString ''OC''), (''country_a2'', JString ''BB''),
              (''country_a3'', JString ''BBB''), (''region_code'', JNull)],
            None,
            [PointInPolygonCall (Some (20, 20, 30, 30)) [JNumber 7, JNumber 7],
             PointInPolygonCall (Some (5, 5, 15, 15)) [JNumber 7, JNumber 7],
             PointInPolygonCall (Some (11, 11, 13, 13)) [JNumber 7, JNumber 7]])"
    by (simp add: calls_B_7 result_B)
  show ?thesis
    using contains_A_7 [of "[square_A, square_B]"] contains_B_7 [of "[square_A, square_B]"] r1 r2
    by (intro conjI)
qed

text \<open>
  Claim C8. In the default (properties) mode, with a feature matched, the lookup returns a
  properties object that carries \<open>continent_code\<close>, \<open>country_a2\<close>, \<open>country_a3\<close> and
  \<open>region_code\<close> with the values of \<open>cont_code\<close>, \<open>iso_a2\<close>, \<open>adm0_a3\<close> and \<open>region_code\<close> of
  the matched feature, and carries \<open>state_code\<close> (with the value of \<open>iso_3166_2\<close>) exactly when
  \<open>iso_3166_2\<close> is non-empty and does not end with \<open>~\<close>; otherwise the object has no
  \<open>state_code\<close> property at all.
\<close>

theorem properties_mode_result:
  assumes "j < length (admin1_features e)"
    and "feature_contains e (JNumber a) (JNumber b) (admin1_features e ! j)"
  shows "\<exists>obj calls.
     lookUp e None (JNumber a) (JNumber b) = Inr (PropertiesObject obj, None, calls) \<and>
     (let fs = admin1_features e;
          props = properties (fs ! first_index (feature_contains e (JNumber a) (JNumber b)) fs)
      in map_of obj ''continent_code'' = Some (cont_code props) \<and>
         map_of obj ''country_a2'' = Some (iso_a2 props) \<and>
         map_of obj ''country_a3'' = Some (adm0_a3 props) \<and>
         map_of obj ''region_code'' = Some (region_code props) \<and>
         map_of obj ''state_code''
           = (if iso_3166_2 props \<noteq> [] \<and> last (iso_3166_2 props) \<noteq> CHR ''~''
              then Some (JString (iso_3166_2 props)) else None) \<and>
         (''state_code'' \<in> fst ` set obj
            \<longleftrightarrow> iso_3166_2 props \<noteq> [] \<and> last (iso_3166_2 props) \<noteq> CHR ''~''))"
proof -
  define fs where "fs = admin1_features e"
  define props where "props = properties (fs ! first_index (feature_contains e (JNumber a) (JNumber b)) fs)"
  define calls where "calls = concat (map (feature_calls e (JNumber a) (JNumber b))
      (take (Suc (first_index (feature_contains e (JNumber a) (JNumber b)) fs)) fs))"
  have "lookUp e None (JNumber a) (JNumber b)
     = Inr (PropertiesObject (derive_properties props), None, calls)"
    using lookup_found [OF assms, of None]
    by (simp add: lookUp_def Let_def build_result_def clone_def fs_def props_def calls_def)
  moreover have "map_of (derive_properties props) ''continent_code'' = Some (cont_code props)"
    "map_of (derive_properties props) ''country_a2'' = Some (iso_a2 props)"
    "map_of (derive_properties props) ''country_a3'' = Some (adm0_a3 props)"
    "map_of (derive_properties props) ''region_code'' = Some (region_code props)"
    "map_of (derive_properties props) ''state_code''
           = (if iso_3166_2 props \<noteq> [] \<and> last (iso_3166_2 props) \<noteq> CHR ''~''
              then Some (JString (iso_3166_2 props)) else None)"
    by (simp_all add: derive_properties_eq)
  moreover have "''state_code'' \<in> fst ` set (derive_properties props)
            \<longleftrightarrow> iso_3166_2 props \<noteq> [] \<and> last (iso_3166_2 props) \<noteq> CHR ''~''"
  proof (cases "iso_3166_2 props \<noteq> [] \<and> last (iso_3166_2 props) \<noteq> CHR ''~''")
    case True
    then show ?thesis by (simp add: derive_properties_eq)
  next
    case False
    then have "derive_properties props =
      [(''continent_code'', cont_code props), (''country_a2'', iso_a2 props),
       (''country_a3'', adm0_a3 props), (''region_code'', region_code props)]"
      by (simp add: derive_properties_eq)
    then show ?thesis using False by simp
  qed
  ultimately show ?thesis
    unfolding Let_def fs_def [symmetric] props_def [symmetric] by blast
qed

text \<open>
  A feature with subdivision code \<open>AA-KS\<close> yields \<open>state_code\<close>; one with \<open>BB-X01~\<close> yields an
  object without that property.
\<close>

theorem properties_mode_result_witness:
  "0 < length (admin1_features (example_env [square_A])) \<and>
   feature_contains (example_env [square_A]) (JNumber 7) (JNumber 7)
     (admin1_features (example_env [square_A]) ! 0) \<and>
   (\<exists>obj calls.
      lookUp (example_env [square_A]) None (JNumber 7) (JNumber 7)
        = Inr (PropertiesObject obj, None, calls) \<and>
      map_of obj ''country_a2'' = Some (JString ''AA'') \<and>
      map_of obj ''state_code'' = Some (JString ''AA-KS'')) \<and>
   0 < length (admin1_features (example_env [square_B])) \<and>
   feature_contains (example_env [square_B]) (JNumber 7) (JNumber 7)
     (admin1_features (example_env [square_B]) ! 0) \<and>
   (\<exists>obj calls.
      lookUp (example_env [square_B]) None (JNumber 7) (JNumber 7)
        = Inr (PropertiesObject obj, None, calls) \<and>
      map_of obj ''country_a2'' = Some (JString ''BB'') \<and>
      map_of obj ''state_code'' = None \<and>
      ''state_code'' \<notin> fst ` set obj)"
proof -
  let ?A = "example_env [square_A]" and ?B = "example_env [square_B]"
  have a: "admin1_features (example_env fs) = fs" for fs
    by (simp add: example_env_def)
  have hA: "0 < length (admin1_features ?A)" and hB: "0 < length (admin1_features ?B)"
    by (simp_all add: a)
  have cA: "feature_contains ?A (JNumber 7) (JNumber 7) (admin1_features ?A ! 0)"
    by (simp add: a contains_A_7)
  have cB: "feature_contains ?B (JNumber 7) (JNumber 7) (admin1_features ?B ! 0)"
    by (simp add: a contains_B_7)
  have iA: "first_index (feature_contains ?A (JNumber 7) (JNumber 7)) [square_A] = 0"
    using contains_A_7 by (simp add: first_index_def)
  have iB: "first_index (feature_contains ?B (JNumber 7) (JNumber 7)) [square_B] = 0"
    using contains_B_7 by (simp add: first_index_def)
  have pA: "iso_a2 (properties square_A) = JString ''AA''" "iso_3166_2 (properties square_A) = ''AA-KS''"
    by (simp_all add: square_A_def)
  have pB: "iso_a2 (properties square_B) = JString ''BB''" "iso_3166_2 (properties square_B) = ''BB-X01~''"
    by (simp_all add: square_B_def)
  have eA: "\<exists>obj calls.
      lookUp ?A None (JNumber 7) (JNumber 7) = Inr (PropertiesObject obj, None, calls) \<and>
      map_of obj ''country_a2'' = Some (JString ''AA'') \<and>
      map_of obj ''state_code'' = Some (JString ''AA-KS'')"
    using properties_mode_result [OF hA cA] unfolding Let_def a iA by (simp add: pA) blast
  have eB: "\<exists>obj calls.
      lookUp ?B None (JNumber 7) (JNumber 7) = Inr (PropertiesObject obj, None, calls) \<and>
      map_of obj ''country_a2'' = Some (JString ''BB'') \<and>
      map_of obj ''state_code'' = None \<and>
      ''state_code'' \<notin> fst ` set obj"
    using properties_mode_result [OF hB cB] unfolding Let_def a iB by (simp add: pB) blast
  show ?thesis
    using hA cA eA hB cB eB by (intro conjI)
qed

section \<open>The lookup and the cache together\<close>

lemma map_of_map_delete_other: "key \<noteq> k \<Longrightarrow> map_of (map_delete k es) key = map_of es key"
  by (induction es) (auto simp: map_delete_def)

lemma map_of_get: "map_of (cache (snd (get k c))) key = map_of (cache c) key"
proof (cases "map_of (cache c) k")
  case None
  then show ?thesis by (simp add: get_def)
next
  case (Some v)
  show ?thesis
  proof (cases "key = k")
    case True
    then show ?thesis
      using Some by (simp add: get_cache_eq map_add_def map_of_map_delete)
  next
    case False
    then show ?thesis
      using Some by (simp add: get_cache_eq map_add_def map_of_map_delete_other split: option.splits)
  qed
qed

lemma map_of_remove:
  "map_of (cache (remove k c)) key = (if key = k then None else map_of (cache c) key)"
proof (cases "map_of (cache c) k")
  case None
  then show ?thesis by (auto simp: remove_def)
next
  case (Some v)
  then show ?thesis
    by (simp add: remove_def map_of_map_delete map_of_map_delete_other)
qed

lemma map_of_evict:
  "map_of (cache (evict sz c)) key = None \<or> map_of (cache (evict sz c)) key = map_of (cache c) key"
proof (induction sz c rule: evict.induct)
  case (1 sz c)
  show ?case
  proof (cases "currentSize c + int sz > int (maxSize c) \<and> length (cache c) > 0")
    case False
    then show ?thesis by (simp add: evict.simps [of sz c])
  next
    case True
    then obtain k e rest where ce: "cache c = (k, e) # rest"
      by (cases "cache c") auto
    have ev: "evict sz c = evict sz (remove k c)"
      using True ce by (simp add: evict.simps [of sz c])
    have "map_of (cache (evict sz (remove k c))) key = None \<or>
          map_of (cache (evict sz (remove k c))) key = map_of (cache (remove k c)) key"
      using True ce by (intro "1.IH" [of "(k, e)" rest k e]) simp_all
    then show ?thesis
      unfolding ev by (auto simp: map_of_remove split: if_splits)
  qed
qed

lemma map_of_map_set_other: "key \<noteq> k \<Longrightarrow> map_of (map_set k v m) key = map_of m key"
proof -
  assume ne: "key \<noteq> k"
  have "map_of (map (\<lambda>kv. if fst kv = k then (k, v) else kv) m) key = map_of m key"
    using ne by (induction m) auto
  then show ?thesis
    using ne by (simp add: map_set_def map_add_def split: option.splits)
qed

lemma map_of_map_set_same: "map_of (map_set k v m) k = Some v"
proof (cases "map_of m k")
  case None
  then show ?thesis by (simp add: map_set_absent map_add_def)
next
  case (Some w)
  have "map_of m k \<noteq> None \<Longrightarrow> map_of (map (\<lambda>kv. if fst kv = k then (k, v) else kv) m) k = Some v"
    by (induction m) auto
  then show ?thesis using Some by (simp add: map_set_def map_has_def)
qed

lemma map_of_set_entry_other:
  assumes "key \<noteq> k"
  shows "map_of (cache (set_entry stringify k v c)) key = None \<or>
         map_of (cache (set_entry stringify k v c)) key = map_of (cache c) key"
proof -
  define c1 where "c1 = (if map_has k (cache c) then remove k c else c)"
  have 1: "map_of (cache c1) key = map_of (cache c) key"
    using assms by (simp add: c1_def map_of_remove)
  have 2: "map_of (cache (set_entry stringify k v c)) key
      = map_of (cache (evict (getSize stringify v) c1)) key"
    using assms by (simp add: set_entry_def Let_def c1_def [symmetric] map_of_map_set_other)
  show ?thesis
    unfolding 2 using map_of_evict [of "getSize stringify v" c1 key] 1 by simp
qed

lemma map_of_set_entry_same:
  "map_of (cache (set_entry stringify k v c)) k
     = Some \<lparr>entry_data = v, entry_size = getSize stringify v\<rparr>"
  by (simp add: set_entry_def Let_def map_of_map_set_same)

lemma map_of_apply_op:
  assumes "\<And>k v. op = OpSet k v \<Longrightarrow> k \<noteq> key"
  shows "map_of (cache (apply_op stringify c op)) key = None \<or>
         map_of (cache (apply_op stringify c op)) key = map_of (cache c) key"
proof (cases op)
  case (OpGet k)
  then show ?thesis by (simp add: map_of_get)
next
  case (OpSet k v)
  then have "key \<noteq> k" using assms by blast
  then show ?thesis using OpSet by (simp add: map_of_set_entry_other)
next
  case (OpRemove k)
  then show ?thesis by (simp add: map_of_remove)
next
  case OpClear
  then show ?thesis by (simp add: clear_def)
qed

text \<open>The result of a scan without cache.\<close>

lemma lookup_output_no_cache:
  "lookup_output e None (JNumber a) (JNumber b) dataType =
     Inr (if \<exists>f \<in> set (admin1_features e). feature_contains e (JNumber a) (JNumber b) f
          then build_result dataType
                 (admin1_features e ! first_index (feature_contains e (JNumber a) (JNumber b)) (admin1_features e))
          else Null)"
  by (simp add: lookup_output_def reverseGeolocation_no_cache scan_and_store_char Let_def)

lemma scan_and_store_cases:
  obtains r calls where
    "scan_and_store e (Some c) key (JNumber a) (JNumber b) dataType
       = Inr (r, Some (if truthy r then set_entry (json_stringify e) key r c else c), calls)"
    "lookup_output e None (JNumber a) (JNumber b) dataType = Inr r"
proof (cases "\<exists>f \<in> set (admin1_features e). feature_contains e (JNumber a) (JNumber b) f")
  case True
  then show ?thesis
    using that by (simp add: scan_and_store_char lookup_output_no_cache Let_def)
next
  case False
  then show ?thesis
    using that by (simp add: scan_and_store_char lookup_output_no_cache Let_def)
qed

text \<open>A lookup with a cache: a hit returns the stored value, a miss scans.\<close>

lemma reverseGeolocation_cached:
  assumes "cacheKey (numberToString e) (JNumber a) (JNumber b) dataType = Inr key"
  obtains (hit) v where "map_of (cache c) key = Some v" "truthy (entry_data v)"
      "reverseGeolocation e (Some c) (JNumber a) (JNumber b) dataType
         = Inr (entry_data v, Some (snd (get key c)), [CacheGet key])"
  | (miss) r calls where "\<forall>v. map_of (cache c) key = Some v \<longrightarrow> \<not> truthy (entry_data v)"
      "lookup_output e None (JNumber a) (JNumber b) dataType = Inr r"
      "reverseGeolocation e (Some c) (JNumber a) (JNumber b) dataType
         = Inr (r, Some (if truthy r then set_entry (json_stringify e) key r (snd (get key c))
                         else snd (get key c)),
                CacheGet key # calls)"
proof (cases "\<exists>v. map_of (cache c) key = Some v \<and> truthy (entry_data v)")
  case True
  then obtain v where v: "map_of (cache c) key = Some v" "truthy (entry_data v)" by blast
  then have "reverseGeolocation e (Some c) (JNumber a) (JNumber b) dataType
         = Inr (entry_data v, Some (snd (get key c)), [CacheGet key])"
    using assms by (simp add: reverseGeolocation_def get_def)
  then show ?thesis using v hit by blast
next
  case False
  obtain r calls where sc:
    "scan_and_store e (Some (snd (get key c))) key (JNumber a) (JNumber b) dataType
       = Inr (r, Some (if truthy r then set_entry (json_stringify e) key r (snd (get key c))
                       else snd (get key c)), calls)"
    "lookup_output e None (JNumber a) (JNumber b) dataType = Inr r"
    by (rule scan_and_store_cases)
  have "(case fst (get key c) of None \<Rightarrow> None | Some v \<Rightarrow> if truthy v then Some v else None) = None"
    using False by (auto simp: get_def split: option.splits)
  then have "reverseGeolocation e (Some c) (JNumber a) (JNumber b) dataType
         = Inr (r, Some (if truthy r then set_entry (json_stringify e) key r (snd (get key c))
                         else snd (get key c)),
                CacheGet key # calls)"
    using assms sc(1) by (simp add: reverseGeolocation_def split_beta)
  then show ?thesis using False sc(2) miss by blast
qed

lemma typeof_number: "js_typeof v = ''number'' \<longleftrightarrow> (\<exists>n. v = JNumber n)"
  by (cases v) simp_all

lemma reverseGeolocation_not_number:
  assumes "js_typeof lat \<noteq> ''number'' \<or> js_typeof lng \<noteq> ''number''"
  shows "reverseGeolocation e cfg lat lng dataType =
     (case wrong_coordinates (numberToString e) lat lng of
        Inl ex \<Rightarrow> Inl ex
      | Inr message \<Rightarrow> Inr (ErrorObject message, cfg, []))"
  using assms by (simp add: reverseGeolocation_def)

lemma lookup_output_not_number:
  assumes "js_typeof lat \<noteq> ''number'' \<or> js_typeof lng \<noteq> ''number''"
  shows "lookup_output e cfg lat lng dataType = lookup_output e None lat lng dataType"
  using assms by (simp add: lookup_output_def reverseGeolocation_not_number split: sum.splits)

lemma run_step_not_number:
  assumes "js_typeof lat \<noteq> ''number'' \<or> js_typeof lng \<noteq> ''number''"
  shows "run_step e cfg (Lookup lat lng dataType) = cfg"
  using assms by (simp add: reverseGeolocation_not_number split: sum.splits)

lemma run_step_no_cache: "run_step e None s = None"
proof (cases s)
  case (Lookup lat lng dataType)
  show ?thesis
  proof (cases "js_typeof lat \<noteq> ''number'' \<or> js_typeof lng \<noteq> ''number''")
    case True
    show ?thesis
      unfolding Lookup by (rule run_step_not_number [OF True])
  next
    case False
    then obtain a b where "lat = JNumber a" "lng = JNumber b"
      by (auto simp: typeof_number)
    then show ?thesis
      using Lookup
      by (simp add: reverseGeolocation_no_cache scan_and_store_char Let_def)
  qed
next
  case (CacheOp op)
  then show ?thesis by simp
qed

lemma lookup_output_agrees:
  assumes "agrees e lat lng dataType cfg"
  shows "lookup_output e cfg lat lng dataType = lookup_output e None lat lng dataType"
proof (cases "js_typeof lat \<noteq> ''number'' \<or> js_typeof lng \<noteq> ''number''")
  case True
  then show ?thesis by (rule lookup_output_not_number)
next
  case False
  then obtain a b where ab: "lat = JNumber a" "lng = JNumber b"
    by (auto simp: typeof_number)
  show ?thesis
  proof (cases cfg)
    case None
    then show ?thesis by simp
  next
    case (Some c)
    obtain key where key: "cacheKey (numberToString e) (JNumber a) (JNumber b) dataType = Inr key"
      by (simp add: cacheKey_numbers)
    from key show ?thesis
    proof (cases rule: reverseGeolocation_cached [where c = c])
      case (hit v)
      then show ?thesis
        using assms Some ab key by (simp add: agrees_def lookup_output_def)
    next
      case (miss r calls)
      then show ?thesis
        using Some ab by (simp add: lookup_output_def)
    qed
  qed
qed

lemma agrees_initial: "agrees e lat lng dataType None" "agrees e lat lng dataType (Some (new_LRUCache n))"
  by (simp_all add: agrees_def new_LRUCache_def split: sum.splits)

lemma agrees_weaken:
  assumes "agrees e lat lng dataType (Some c)"
    and "\<And>key. cacheKey (numberToString e) lat lng dataType = Inr key \<Longrightarrow>
           map_of (cache c') key = None \<or> map_of (cache c') key = map_of (cache c) key"
  shows "agrees e lat lng dataType (Some c')"
proof (cases "cacheKey (numberToString e) lat lng dataType")
  case (Inl ex)
  then show ?thesis by (simp add: agrees_def)
next
  case (Inr key)
  then show ?thesis
    using assms(1) assms(2) [OF Inr] by (auto simp: agrees_def split: option.splits)
qed

lemma agrees_get:
  assumes "agrees e lat lng dataType (Some c)"
  shows "agrees e lat lng dataType (Some (snd (get k c)))"
  using assms by (rule agrees_weaken) (simp add: map_of_get)

lemma agrees_apply_op:
  assumes "agrees e lat lng dataType (Some c)"
    and un: "unrelated e lat lng dataType (CacheOp op)"
  shows "agrees e lat lng dataType (Some (apply_op (json_stringify e) c op))"
  using assms(1)
proof (rule agrees_weaken)
  fix key assume key: "cacheKey (numberToString e) lat lng dataType = Inr key"
  have "k \<noteq> key" if "op = OpSet k v" for k v
    using un key that by auto
  then show "map_of (cache (apply_op (json_stringify e) c op)) key = None \<or>
         map_of (cache (apply_op (json_stringify e) c op)) key = map_of (cache c) key"
    by (rule map_of_apply_op)
qed

lemma agrees_set_other:
  assumes "agrees e lat lng dataType (Some c)"
    and "Inr k \<noteq> cacheKey (numberToString e) lat lng dataType"
  shows "agrees e lat lng dataType (Some (set_entry (json_stringify e) k v c))"
  using assms(1)
proof (rule agrees_weaken)
  fix key assume "cacheKey (numberToString e) lat lng dataType = Inr key"
  then have "key \<noteq> k" using assms(2) by auto
  then show "map_of (cache (set_entry (json_stringify e) k v c)) key = None \<or>
         map_of (cache (set_entry (json_stringify e) k v c)) key = map_of (cache c) key"
    by (rule map_of_set_entry_other)
qed

lemma agrees_set_same:
  assumes "cacheKey (numberToString e) lat lng dataType = Inr k"
    and "truthy r" and "lookup_output e None lat lng dataType = Inr r"
  shows "agrees e lat lng dataType (Some (set_entry (json_stringify e) k r c))"
  using assms by (simp add: agrees_def map_of_set_entry_same)

lemma agrees_run_step:
  assumes ag: "agrees e (JNumber a) (JNumber b) dataType cfg"
    and un: "unrelated e (JNumber a) (JNumber b) dataType s"
  shows "agrees e (JNumber a) (JNumber b) dataType (run_step e cfg s)"
proof (cases cfg)
  case None
  then show ?thesis by (simp add: run_step_no_cache agrees_def)
next
  case (Some c)
  note agc = ag [unfolded Some]
  show ?thesis
  proof (cases s)
    case (CacheOp op)
    have "agrees e (JNumber a) (JNumber b) dataType (Some (apply_op (json_stringify e) c op))"
      using agc un [unfolded CacheOp] by (rule agrees_apply_op)
    then show ?thesis unfolding CacheOp Some by simp
  next
    case (Lookup lat' lng' dataType')
    show ?thesis
    proof (cases "js_typeof lat' \<noteq> ''number'' \<or> js_typeof lng' \<noteq> ''number''")
      case True
      show ?thesis
        unfolding Lookup run_step_not_number [OF True] by (rule ag)
    next
      case False
      then obtain a' b' where ab': "lat' = JNumber a'" "lng' = JNumber b'"
        by (auto simp: typeof_number)
      obtain K' where K': "cacheKey (numberToString e) (JNumber a') (JNumber b') dataType' = Inr K'"
        by (simp add: cacheKey_numbers)
      have g: "agrees e (JNumber a) (JNumber b) dataType (Some (snd (get K' c)))"
        using agc by (rule agrees_get)
      from K' show ?thesis
      proof (cases rule: reverseGeolocation_cached [where c = c])
        case (hit v)
        have "run_step e cfg s = Some (snd (get K' c))"
          unfolding Lookup ab' Some by (simp add: hit(3))
        then show ?thesis using g by simp
      next
        case (miss r calls)
        show ?thesis
        proof (cases "truthy r")
          case False
          have "run_step e cfg s = Some (snd (get K' c))"
            unfolding Lookup ab' Some using False by (simp add: miss(3))
          then show ?thesis using g by simp
        next
          case True
          have rs: "run_step e cfg s = Some (set_entry (json_stringify e) K' r (snd (get K' c)))"
            unfolding Lookup ab' Some using True by (simp add: miss(3))
          show ?thesis
          proof (cases "Inr K' = cacheKey (numberToString e) (JNumber a) (JNumber b) dataType")
            case False
            show ?thesis
              unfolding rs using g False by (rule agrees_set_other)
          next
            case eq: True
            have "cacheKey (numberToString e) lat' lng' dataType'
                = cacheKey (numberToString e) (JNumber a) (JNumber b) dataType"
              unfolding ab' K' using eq .
            then have "lat' = JNumber a \<and> lng' = JNumber b \<and> dataType' = dataType"
              using un unfolding Lookup by simp
            then have "lookup_output e None (JNumber a) (JNumber b) dataType = Inr r"
              using miss(2) ab' by simp
            with eq [symmetric] True show ?thesis
              unfolding rs by (rule agrees_set_same)
          qed
        qed
      qed
    qed
  qed
qed

lemma agrees_run:
  assumes "agrees e (JNumber a) (JNumber b) dataType cfg"
    and "\<forall>s \<in> set steps. unrelated e (JNumber a) (JNumber b) dataType s"
  shows "agrees e (JNumber a) (JNumber b) dataType (foldl (run_step e) cfg steps)"
  using assms by (induction steps arbitrary: cfg) (simp_all add: agrees_run_step)

text \<open>
  The cache key determines the printed coordinates and the printed mode: the key is split
  at its first two underscores. So two queries with the same key have coordinates printed
  alike and the same printed mode, and the scan gives both the same result: the modes
  \<open>null\<close> (no mode) and \<open>'null'\<close> are printed alike and both ask for the properties.
\<close>

lemma append_sep_eq:
  assumes "c \<notin> set xs" and "c \<notin> set xs'" and "xs @ c # ys = xs' @ c # ys'"
  shows "xs = xs' \<and> ys = ys'"
  using assms
proof (induction xs arbitrary: xs')
  case Nil
  then show ?case by (cases xs') auto
next
  case (Cons x xs)
  then show ?case by (cases xs') auto
qed

lemma cacheKey_parts:
  assumes "\<forall>n. CHR ''_'' \<notin> set (ns n)"
    and "cacheKey ns (JNumber a) (JNumber b) d = cacheKey ns (JNumber a') (JNumber b') d'"
  shows "ns a = ns a' \<and> ns b = ns b' \<and>
         (case d of None \<Rightarrow> ''null'' | Some s \<Rightarrow> s) = (case d' of None \<Rightarrow> ''null'' | Some s \<Rightarrow> s)"
proof -
  let ?m = "\<lambda>d. case d of None \<Rightarrow> ''null'' | Some s \<Rightarrow> s"
  have eq: "ns a @ CHR ''_'' # (ns b @ CHR ''_'' # ?m d) = ns a' @ CHR ''_'' # (ns b' @ CHR ''_'' # ?m d')"
    using assms(2) by (simp add: cacheKey_numbers)
  have 1: "ns a = ns a' \<and> ns b @ CHR ''_'' # ?m d = ns b' @ CHR ''_'' # ?m d'"
    using assms(1) eq by (intro append_sep_eq [where c = "CHR ''_''"]) auto
  then have 2: "ns b = ns b' \<and> ?m d = ?m d'"
    using assms(1) by (intro append_sep_eq [where c = "CHR ''_''"]) auto
  show ?thesis using 1 2 by simp
qed

lemma cacheKey_inj:
  assumes "\<forall>n. CHR ''_'' \<notin> set (ns n)" and "inj ns"
    and "cacheKey ns (JNumber a) (JNumber b) d = cacheKey ns (JNumber a') (JNumber b') d'"
  shows "a = a' \<and> b = b' \<and>
         (case d of None \<Rightarrow> ''null'' | Some s \<Rightarrow> s) = (case d' of None \<Rightarrow> ''null'' | Some s \<Rightarrow> s)"
  using cacheKey_parts [OF assms(1,3)] assms(2) by (simp add: inj_eq)

lemma build_result_mode:
  assumes "(case d of None \<Rightarrow> ''null'' | Some s \<Rightarrow> s) = (case d' of None \<Rightarrow> ''null'' | Some s \<Rightarrow> s)"
  shows "build_result d country = build_result d' country"
proof -
  have "d = d' \<or> (d = None \<and> d' = Some ''null'') \<or> (d = Some ''null'' \<and> d' = None)"
    using assms by (cases d; cases d') auto
  then show ?thesis
    by (auto simp: build_result_def)
qed

lemma geometry_test_point:
  assumes "\<forall>ring. pip ring p = pip ring p'"
  shows "fst (geometry_test pip g p) = fst (geometry_test pip g p')"
  using assms
  by (cases g) (simp_all add: geometry_test_def rings_test_char multi_test_char polygon_rule_def)

lemma same_key_same_output:
  assumes host: "host_printing e"
    and key: "cacheKey (numberToString e) (JNumber a) (JNumber b) d
            = cacheKey (numberToString e) (JNumber a') (JNumber b') d'"
  shows "lookup_output e None (JNumber a) (JNumber b) d = lookup_output e None (JNumber a') (JNumber b') d'"
proof -
  have us: "\<forall>n. CHR ''_'' \<notin> set (numberToString e n)"
    using host by (simp add: host_printing_def)
  note parts = cacheKey_parts [OF us key]
  have "pointInPolygon e ring [JNumber b, JNumber a] = pointInPolygon e ring [JNumber b', JNumber a']" for ring
    using host parts unfolding host_printing_def by blast
  then have fc: "feature_contains e (JNumber a) (JNumber b) = feature_contains e (JNumber a') (JNumber b')"
    by (intro ext) (simp add: feature_contains_def geometry_test_point)
  have br: "build_result d f = build_result d' f" for f :: "('a, 'b) feature"
    using parts by (intro build_result_mode) simp
  show ?thesis
    by (simp add: lookup_output_no_cache fc br)
qed

text \<open>A file path is the cache key of no query.\<close>

lemma file_path_not_key:
  assumes "\<forall>n. CHR ''/'' \<notin> set (ns n)" and "take 1 k = ''/''"
  shows "Inr k \<noteq> cacheKey ns (JNumber a) (JNumber b) d"
proof
  assume "Inr k = cacheKey ns (JNumber a) (JNumber b) d"
  then have k: "k = ns a @ CHR ''_'' # (ns b @ CHR ''_'' # (case d of None \<Rightarrow> ''null'' | Some s \<Rightarrow> s))"
    by (simp add: cacheKey_numbers)
  show False
  proof (cases "ns a")
    case Nil
    then show ?thesis using k assms(2) by simp
  next
    case (Cons x xs)
    then have "x = CHR ''/''" using k assms(2) by simp
    then have "CHR ''/'' \<in> set (ns a)" using Cons by simp
    then show ?thesis using assms(1) by simp
  qed
qed

text \<open>
  A history of such steps keeps the invariant: under the key of the query the cache stores
  nothing or what a scan without cache gives for the query.
\<close>

lemma agrees_module_step:
  assumes ag: "agrees e (JNumber a) (JNumber b) dataType cfg"
    and host: "host_printing e"
    and ms: "module_step s"
  shows "agrees e (JNumber a) (JNumber b) dataType (run_step e cfg s)"
proof (cases cfg)
  case None
  then show ?thesis by (simp add: run_step_no_cache agrees_def)
next
  case (Some c)
  note agc = ag [unfolded Some]
  have slash: "\<forall>n. CHR ''/'' \<notin> set (numberToString e n)"
    using host by (simp add: host_printing_def)
  show ?thesis
  proof (cases s)
    case (CacheOp op)
    have "agrees e (JNumber a) (JNumber b) dataType (Some (apply_op (json_stringify e) c op))"
      using agc
    proof (rule agrees_weaken)
      fix key assume key: "cacheKey (numberToString e) (JNumber a) (JNumber b) dataType = Inr key"
      have "k \<noteq> key" if "op = OpSet k v" for k v
      proof -
        have "take 1 k = ''/''"
          using ms that unfolding CacheOp by simp
        with slash have "Inr k \<noteq> cacheKey (numberToString e) (JNumber a) (JNumber b) dataType"
          by (rule file_path_not_key)
        then show ?thesis using key by simp
      qed
      then show "map_of (cache (apply_op (json_stringify e) c op)) key = None \<or>
         map_of (cache (apply_op (json_stringify e) c op)) key = map_of (cache c) key"
        by (rule map_of_apply_op)
    qed
    then show ?thesis unfolding CacheOp Some by simp
  next
    case (Lookup lat' lng' dataType')
    show ?thesis
    proof (cases "js_typeof lat' \<noteq> ''number'' \<or> js_typeof lng' \<noteq> ''number''")
      case True
      show ?thesis
        unfolding Lookup run_step_not_number [OF True] by (rule ag)
    next
      case False
      then obtain a' b' where ab': "lat' = JNumber a'" "lng' = JNumber b'"
        by (auto simp: typeof_number)
      obtain K' where K': "cacheKey (numberToString e) (JNumber a') (JNumber b') dataType' = Inr K'"
        by (simp add: cacheKey_numbers)
      have g: "agrees e (JNumber a) (JNumber b) dataType (Some (snd (get K' c)))"
        using agc by (rule agrees_get)
      from K' show ?thesis
      proof (cases rule: reverseGeolocation_cached [where c = c])
        case (hit v)
        have "run_step e cfg s = Some (snd (get K' c))"
          unfolding Lookup ab' Some by (simp add: hit(3))
        then show ?thesis using g by simp
      next
        case (miss r calls)
        show ?thesis
        proof (cases "truthy r")
          case False
          have "run_step e cfg s = Some (snd (get K' c))"
            unfolding Lookup ab' Some using False by (simp add: miss(3))
          then show ?thesis using g by simp
        next
          case True
          have rs: "run_step e cfg s = Some (set_entry (json_stringify e) K' r (snd (get K' c)))"
            unfolding Lookup ab' Some using True by (simp add: miss(3))
          show ?thesis
          proof (cases "Inr K' = cacheKey (numberToString e) (JNumber a) (JNumber b) dataType")
            case False
            show ?thesis
              unfolding rs using g False by (rule agrees_set_other)
          next
            case eq: True
            have "cacheKey (numberToString e) (JNumber a) (JNumber b) dataType
                = cacheKey (numberToString e) (JNumber a') (JNumber b') dataType'"
              unfolding K' using eq [symmetric] .
            with host have "lookup_output e None (JNumber a) (JNumber b) dataType
                = lookup_output e None (JNumber a') (JNumber b') dataType'"
              by (rule same_key_same_output)
            then have "lookup_output e None (JNumber a) (JNumber b) dataType = Inr r"
              using miss(2) by simp
            with eq [symmetric] True show ?thesis
              unfolding rs by (rule agrees_set_same)
          qed
        qed
      qed
    qed
  qed
qed

lemma agrees_module_run:
  assumes "agrees e (JNumber a) (JNumber b) dataType cfg"
    and "host_printing e"
    and "\<forall>s \<in> set steps. module_step s"
  shows "agrees e (JNumber a) (JNumber b) dataType (foldl (run_step e) cfg steps)"
  using assms by (induction steps arbitrary: cfg) (simp_all add: agrees_module_step)

text \<open>
  What \<open>readJSONFile\<close> does to the cache is a history of such steps: a read of the path,
  followed by an insertion under the path when nothing truthy was cached and the file was
  read.
\<close>

lemma readJSONFile_steps:
  "snd (readJSONFile e cfg filePath contents) =
     foldl (run_step e) cfg
       (CacheOp (OpGet filePath) #
        (case contents of
           None \<Rightarrow> []
         | Some parsed \<Rightarrow>
             (case cfg of
                None \<Rightarrow> []
              | Some c \<Rightarrow>
                  (case fst (get filePath c) of
                     None \<Rightarrow> [CacheOp (OpSet filePath parsed)]
                   | Some v \<Rightarrow> if truthy v then [] else [CacheOp (OpSet filePath parsed)]))))"
  by (cases cfg; cases contents) (auto simp: readJSONFile_def split_beta split: option.splits)

lemma readJSONFile_history:
  assumes "take 1 filePath = ''/''"
  obtains steps :: "('n, 'r) step list" where "\<forall>s \<in> set steps. module_step s"
    and "snd (readJSONFile e cfg filePath contents) = foldl (run_step e) cfg steps"
proof -
  define steps :: "('n, 'r) step list" where
    "steps = CacheOp (OpGet filePath) #
        (case contents of
           None \<Rightarrow> []
         | Some parsed \<Rightarrow>
             (case cfg of
                None \<Rightarrow> []
              | Some c \<Rightarrow>
                  (case fst (get filePath c) of
                     None \<Rightarrow> [CacheOp (OpSet filePath parsed)]
                   | Some v \<Rightarrow> if truthy v then [] else [CacheOp (OpSet filePath parsed)])))"
  have "\<forall>s \<in> set steps. module_step s"
    using assms unfolding steps_def by (auto split: option.splits)
  moreover have "snd (readJSONFile e cfg filePath contents) = foldl (run_step e) cfg steps"
    unfolding steps_def by (rule readJSONFile_steps)
  ultimately show ?thesis by (rule that)
qed

text \<open>
  Claim C9. Assume of the host that printed numbers contain no underscore and no slash and
  that \<open>pointInPolygon\<close> does not tell apart numbers printed alike. Take any query
  \<open>(lat, lng, dataType)\<close> and any two histories of the cache, each starting without a cache
  or with a new one and made of lookups of any queries (this one and all others, in every
  mode), insertions under file paths, reads, removals and clearing, with the evictions they
  cause. The lookup gives the same output after both, and it is the output of a scan
  without cache: a hit returns what a fresh scan computes.
\<close>

theorem lookup_deterministic:
  assumes "host_printing e"
    and "\<forall>s \<in> set steps1. module_step s"
    and "\<forall>s \<in> set steps2. module_step s"
    and "cfg1 = None \<or> (\<exists>n. cfg1 = Some (new_LRUCache n))"
    and "cfg2 = None \<or> (\<exists>n. cfg2 = Some (new_LRUCache n))"
  shows "lookup_output e (foldl (run_step e) cfg1 steps1) lat lng dataType
           = lookup_output e (foldl (run_step e) cfg2 steps2) lat lng dataType \<and>
         lookup_output e (foldl (run_step e) cfg1 steps1) lat lng dataType
           = lookup_output e None lat lng dataType"
proof -
  have fresh: "lookup_output e (foldl (run_step e) cfg steps) lat lng dataType
           = lookup_output e None lat lng dataType"
    if ms: "\<forall>s \<in> set steps. module_step s"
      and init: "cfg = None \<or> (\<exists>n. cfg = Some (new_LRUCache n))" for cfg steps
  proof (cases "js_typeof lat \<noteq> ''number'' \<or> js_typeof lng \<noteq> ''number''")
    case True
    then show ?thesis by (rule lookup_output_not_number)
  next
    case False
    then obtain a b where ab: "lat = JNumber a" "lng = JNumber b"
      by (auto simp: typeof_number)
    have "agrees e (JNumber a) (JNumber b) dataType cfg"
      using init agrees_initial by blast
    then have "agrees e (JNumber a) (JNumber b) dataType (foldl (run_step e) cfg steps)"
      using assms(1) ms by (rule agrees_module_run)
    then show ?thesis
      unfolding ab by (rule lookup_output_agrees)
  qed
  show ?thesis
    using fresh [OF assms(2,4)] fresh [OF assms(3,5)] by simp
qed

lemma agrees_miss:
  assumes none: "\<forall>f \<in> set (admin1_features e). \<not> feature_contains e (JNumber a) (JNumber b) f"
    and ag: "agrees e (JNumber a) (JNumber b) dataType cfg"
  shows "reverseGeolocation e cfg (JNumber a) (JNumber b) dataType =
     Inr (Null, cfg,
          (case cfg of
             None \<Rightarrow> []
           | Some c \<Rightarrow> [CacheGet (numberToString e a @ ''_'' @ numberToString e b @ ''_'' @
                                    (case dataType of None \<Rightarrow> ''null'' | Some s \<Rightarrow> s))]) @
          concat (map (feature_calls e (JNumber a) (JNumber b)) (admin1_features e)))"
proof -
  let ?key = "numberToString e a @ ''_'' @ numberToString e b @ ''_'' @
                (case dataType of None \<Rightarrow> ''null'' | Some s \<Rightarrow> s)"
  have key: "cacheKey (numberToString e) (JNumber a) (JNumber b) dataType = Inr ?key"
    by (rule cacheKey_numbers)
  have fresh: "lookup_output e None (JNumber a) (JNumber b) dataType = Inr Null"
    using none by (simp add: lookup_output_no_cache)
  have sas: "scan_and_store e cfg' k (JNumber a) (JNumber b) dataType =
      Inr (Null, cfg', concat (map (feature_calls e (JNumber a) (JNumber b)) (admin1_features e)))"
    for cfg' k
    using none by (simp add: scan_and_store_char Let_def upto_first_none)
  show ?thesis
  proof (cases cfg)
    case None
    then show ?thesis by (simp add: reverseGeolocation_no_cache sas)
  next
    case (Some c)
    have "map_of (cache c) ?key = None"
    proof (cases "map_of (cache c) ?key")
      case None
      then show ?thesis .
    next
      case (Some v)
      have "agrees e (JNumber a) (JNumber b) dataType (Some c)"
        using ag \<open>cfg = Some c\<close> by simp
      then have "truthy (entry_data v)" and "Inr (entry_data v) = lookup_output e None (JNumber a) (JNumber b) dataType"
        unfolding agrees_def key using Some by simp_all
      then have "truthy Null" using fresh by simp
      then show ?thesis by simp
    qed
    then show ?thesis
      using Some reverseGeolocation_miss [OF key, of c] by (simp add: sas)
  qed
qed

text \<open>
  Claim C7. When no feature contains the point, then on every cache reached from no cache or
  a new cache by steps unrelated to the three queries of this point (among them earlier
  lookups of the same point), \<open>lookUp\<close>, \<open>lookUpRaw\<close> and \<open>lookUpGeoJSON\<close> return \<open>null\<close>,
  leave the cache as it was (there is no call of its \<open>set\<close>), and test every feature of the
  index: the \<open>null\<close> is not stored, and an identical later lookup scans again.
\<close>

theorem miss_returns_null_uncached:
  assumes "\<forall>f \<in> set (admin1_features e). \<not> feature_contains e (JNumber a) (JNumber b) f"
    and "\<forall>s \<in> set steps. unrelated e (JNumber a) (JNumber b) None s \<and>
           unrelated e (JNumber a) (JNumber b) (Some ''raw'') s \<and>
           unrelated e (JNumber a) (JNumber b) (Some ''geojson'') s"
    and "cfg0 = None \<or> (\<exists>n. cfg0 = Some (new_LRUCache n))"
  shows "let cfg = foldl (run_step e) cfg0 steps;
             scan_calls = concat (map (feature_calls e (JNumber a) (JNumber b)) (admin1_features e));
             get_call = (\<lambda>mode. case cfg of
                           None \<Rightarrow> []
                         | Some c \<Rightarrow> [CacheGet (numberToString e a @ ''_'' @ numberToString e b @ ''_'' @ mode)])
         in lookUp e cfg (JNumber a) (JNumber b) = Inr (Null, cfg, get_call ''null'' @ scan_calls) \<and>
            lookUpRaw e cfg (JNumber a) (JNumber b) = Inr (Null, cfg, get_call ''raw'' @ scan_calls) \<and>
            lookUpGeoJSON e cfg (JNumber a) (JNumber b) = Inr (Null, cfg, get_call ''geojson'' @ scan_calls)"
proof -
  define cfg where "cfg = foldl (run_step e) cfg0 steps"
  have ag: "agrees e (JNumber a) (JNumber b) dataType cfg"
    if "\<forall>s \<in> set steps. unrelated e (JNumber a) (JNumber b) dataType s" for dataType
  proof -
    have "agrees e (JNumber a) (JNumber b) dataType cfg0"
      using assms(3) agrees_initial by blast
    then show ?thesis
      unfolding cfg_def using that by (rule agrees_run)
  qed
  have 1: "agrees e (JNumber a) (JNumber b) None cfg"
    and 2: "agrees e (JNumber a) (JNumber b) (Some ''raw'') cfg"
    and 3: "agrees e (JNumber a) (JNumber b) (Some ''geojson'') cfg"
    using assms(2) by (simp_all add: ag)
  show ?thesis
    unfolding Let_def cfg_def [symmetric] lookUp_def lookUpRaw_def lookUpGeoJSON_def
    using agrees_miss [OF assms(1) 1] agrees_miss [OF assms(1) 2] agrees_miss [OF assms(1) 3]
    by (cases cfg) simp_all
qed

text \<open>
  Coordinates that are not numbers: when both convert to strings, the lookup returns an
  error object whose message holds both, with the cache untouched and nothing scanned; when
  a conversion throws, the lookup throws.
\<close>

lemma invalid_input_error:
  assumes "js_typeof lat \<noteq> ''number'' \<or> js_typeof lng \<noteq> ''number''"
    and "js_toString (numberToString e) lat = Inr s" and "js_toString (numberToString e) lng = Inr t"
  shows "reverseGeolocation e cfg lat lng dataType
     = Inr (ErrorObject (''Wrong coordinates (lat: '' @ s @ '',lng: '' @ t @ '')''), cfg, [])"
  using assms(2,3)
  by (simp add: reverseGeolocation_not_number [OF assms(1)] wrong_coordinates_def string_plus_def)

lemma invalid_input_throws:
  assumes "js_typeof lat \<noteq> ''number'' \<or> js_typeof lng \<noteq> ''number''"
    and "js_toString (numberToString e) lat = Inl ex \<or>
         (\<exists>s. js_toString (numberToString e) lat = Inr s) \<and> js_toString (numberToString e) lng = Inl ex"
  shows "reverseGeolocation e cfg lat lng dataType = Inl ex"
  using assms(2)
  by (auto simp: reverseGeolocation_not_number [OF assms(1)] wrong_coordinates_def string_plus_def)

text \<open>
  Claim C3 says that a lookup whose \<open>lat\<close> or \<open>lng\<close> is not a number returns an error value and
  does not throw. For a Symbol the code throws: \<open>typeof\<close> is not \<open>'number'\<close>, so the message is
  built, and \<open>'Wrong coordinates (lat: ' + lat\<close> throws a \<open>TypeError\<close> on a Symbol, whatever the
  other coordinate, the mode and the cache are.
\<close>

theorem symbol_coordinate_throws:
  "js_typeof (JSymbol d) \<noteq> ''number'' \<and>
   reverseGeolocation e cfg (JSymbol d) lng dataType = Inl TypeError \<and>
   lookUp e cfg (JSymbol d) (JNumber n) = Inl TypeError"
proof -
  have t: "js_typeof (JSymbol d) \<noteq> ''number''" by simp
  have "reverseGeolocation e cfg (JSymbol d) lng dataType = Inl TypeError" for lng dataType
  proof (rule invalid_input_throws)
    show "js_typeof (JSymbol d) \<noteq> ''number'' \<or> js_typeof lng \<noteq> ''number''"
      by simp
    show "js_toString (numberToString e) (JSymbol d) = Inl TypeError \<or>
         (\<exists>s. js_toString (numberToString e) (JSymbol d) = Inr s) \<and>
         js_toString (numberToString e) lng = Inl TypeError"
      by simp
  qed
  then show ?thesis using t by (simp add: lookUp_def)
qed

text \<open>Examples: the cache keys and the runs of the example index.\<close>

lemma show_int_8: "show_int 8 = ''8''"
  by (simp add: show_int_def show_nat.simps)

lemma example_env_fields:
  "admin1_features (example_env fs) = fs" "numberToString (example_env fs) = show_int"
  "json_stringify (example_env fs) = (\<lambda>result. ''{..}'')" "pointInPolygon (example_env fs) = in_box"
  by (simp_all add: example_env_def)

lemma example_keys:
  "cacheKey show_int (JNumber 7) (JNumber 7) None = Inr ''7_7_null''"
  "cacheKey show_int (JNumber 8) (JNumber 8) None = Inr ''8_8_null''"
  "cacheKey show_int (JNumber 12) (JNumber 12) None = Inr ''12_12_null''"
  "cacheKey show_int (JNumber 12) (JNumber 12) (Some ''raw'') = Inr ''12_12_raw''"
  "cacheKey show_int (JNumber 12) (JNumber 12) (Some ''geojson'') = Inr ''12_12_geojson''"
  by (simp_all add: cacheKey_numbers show_int_7 show_int_8 show_int_12)

lemma contains_A_8: "feature_contains (example_env fs) (JNumber 8) (JNumber 8) square_A"
  by (simp add: feature_contains_def example_env_def square_A_def geometry_test_def rings_test_char
      polygon_rule_def in_box_def at_index_def)

lemma example_lookup_7:
  assumes "map_of (cache c) ''7_7_null'' = None"
  shows "reverseGeolocation (example_env [square_A, square_B]) (Some c) (JNumber 7) (JNumber 7) None
     = Inr (build_result None square_A,
            Some (set_entry (\<lambda>result. ''{..}'') ''7_7_null'' (build_result None square_A) c),
            CacheGet ''7_7_null'' # feature_calls (example_env [square_A, square_B]) (JNumber 7) (JNumber 7) square_A
              @ [CacheSet ''7_7_null''])"
proof -
  let ?E = "example_env [square_A, square_B]"
  have h: "0 < length (admin1_features ?E)"
    and c: "feature_contains ?E (JNumber 7) (JNumber 7) (admin1_features ?E ! 0)"
    by (simp_all add: example_env_fields contains_A_7)
  have i: "first_index (feature_contains ?E (JNumber 7) (JNumber 7)) [square_A, square_B] = 0"
    using contains_A_7 by (simp add: first_index_def)
  have k: "cacheKey (numberToString ?E) (JNumber 7) (JNumber 7) None = Inr ''7_7_null''"
    by (simp add: example_env_fields example_keys)
  show ?thesis
    using lookup_found [OF h c, of None] k assms
    unfolding Let_def example_env_fields i by simp
qed

lemma example_lookup_8:
  assumes "map_of (cache c) ''8_8_null'' = None"
  shows "reverseGeolocation (example_env [square_A, square_B]) (Some c) (JNumber 8) (JNumber 8) None
     = Inr (build_result None square_A,
            Some (set_entry (\<lambda>result. ''{..}'') ''8_8_null'' (build_result None square_A) c),
            CacheGet ''8_8_null'' # feature_calls (example_env [square_A, square_B]) (JNumber 8) (JNumber 8) square_A
              @ [CacheSet ''8_8_null''])"
proof -
  let ?E = "example_env [square_A, square_B]"
  have h: "0 < length (admin1_features ?E)"
    and c: "feature_contains ?E (JNumber 8) (JNumber 8) (admin1_features ?E ! 0)"
    by (simp_all add: example_env_fields contains_A_8)
  have i: "first_index (feature_contains ?E (JNumber 8) (JNumber 8)) [square_A, square_B] = 0"
    using contains_A_8 by (simp add: first_index_def)
  have k: "cacheKey (numberToString ?E) (JNumber 8) (JNumber 8) None = Inr ''8_8_null''"
    by (simp add: example_env_fields example_keys)
  show ?thesis
    using lookup_found [OF h c, of None] k assms
    unfolding Let_def example_env_fields i by simp
qed

lemma example_set_7:
  "set_entry (\<lambda>result. ''{..}'') ''7_7_null'' r (new_LRUCache 8)
     = \<lparr>maxSize = 8, currentSize = 8,
        cache = [(''7_7_null'', \<lparr>entry_data = r, entry_size = 8\<rparr>)]\<rparr>"
proof -
  have "distinct (map fst (cache (new_LRUCache 8 :: 'a LRUCache)))"
    by (simp add: new_LRUCache_def)
  then show ?thesis
    by (simp add: set_entry_eq_spec set_spec_def new_LRUCache_def getSize_def)
qed

lemma example_set_8:
  "set_entry (\<lambda>result. ''{..}'') ''8_8_null'' r
       \<lparr>maxSize = 8, currentSize = 8,
        cache = [(''7_7_null'', \<lparr>entry_data = r', entry_size = 8\<rparr>)]\<rparr>
     = \<lparr>maxSize = 8, currentSize = 8,
        cache = [(''8_8_null'', \<lparr>entry_data = r, entry_size = 8\<rparr>)]\<rparr>"
proof -
  have "distinct (map fst (cache \<lparr>maxSize = 8, currentSize = 8,
        cache = [(''7_7_null'', \<lparr>entry_data = r', entry_size = 8\<rparr>)]\<rparr>))"
    by simp
  then show ?thesis
    by (simp add: set_entry_eq_spec set_spec_def getSize_def)
qed

text \<open>
  On the example index: a Symbol as latitude makes the lookup throw, with or without a
  cache, while the string \<open>x\<close> is answered with the error object that names both inputs.
\<close>

theorem symbol_coordinate_throws_witness:
  "js_typeof (JSymbol ''x'' :: int jsvalue) \<noteq> ''number'' \<and>
   reverseGeolocation (example_env [square_A, square_B]) (Some (new_LRUCache 100))
     (JSymbol ''x'') (JNumber 10) None = Inl TypeError \<and>
   lookUp (example_env [square_A, square_B]) None (JSymbol ''x'') (JNumber 10) = Inl TypeError \<and>
   reverseGeolocation (example_env [square_A, square_B]) (Some (new_LRUCache 100))
     (JString ''x'') (JNumber 10) None
     = Inr (ErrorObject ''Wrong coordinates (lat: x,lng: 10)'', Some (new_LRUCache 100), [])"
proof -
  let ?E = "example_env [square_A, square_B]"
  have "js_typeof (JString ''x'' :: int jsvalue) \<noteq> ''number'' \<or>
        js_typeof (JNumber 10 :: int jsvalue) \<noteq> ''number''"
    by simp
  moreover have "js_toString (numberToString ?E) (JString ''x'') = Inr ''x''"
    and "js_toString (numberToString ?E) (JNumber 10) = Inr ''10''"
    by (simp_all add: example_env_fields show_int_10)
  ultimately have "reverseGeolocation ?E (Some (new_LRUCache 100)) (JString ''x'') (JNumber 10) None
     = Inr (ErrorObject (''Wrong coordinates (lat: '' @ ''x'' @ '',lng: '' @ ''10'' @ '')''),
            Some (new_LRUCache 100), [])"
    by (rule invalid_input_error)
  then show ?thesis
    using symbol_coordinate_throws [of "''x''" ?E "Some (new_LRUCache 100)" "JNumber 10" None 10]
      symbol_coordinate_throws [of "''x''" ?E None "JNumber 10" None 10]
    by simp
qed

text \<open>The example host: decimal printing is injective and uses digits and the minus sign.\<close>

lemma digit_in_digits:
  assumes "d < 10"
  shows "''0123456789'' ! d \<in> set ''0123456789''"
proof -
  have "d < length ''0123456789''" using assms by simp
  then show ?thesis by (rule nth_mem)
qed

lemma show_nat_digits: "set (show_nat n) \<subseteq> set ''0123456789''"
proof -
  define D where "D = set ''0123456789''"
  have digit: "''0123456789'' ! d \<in> D" if "d < 10" for d
    unfolding D_def using that by (rule digit_in_digits)
  have "set (show_nat n) \<subseteq> D"
  proof (induction n rule: show_nat.induct)
    case (1 n)
    show ?case
    proof (cases "n < 10")
      case True
      then have "show_nat n = [''0123456789'' ! n]"
        by (subst show_nat.simps) simp
      then show ?thesis
        using digit [OF True] by simp
    next
      case False
      then have eq: "show_nat n = show_nat (n div 10) @ [''0123456789'' ! (n mod 10)]"
        by (subst show_nat.simps) simp
      have "''0123456789'' ! (n mod 10) \<in> D"
        by (rule digit) simp
      then show ?thesis
        using "1.IH" [OF False] unfolding eq by simp
    qed
  qed
  then show ?thesis unfolding D_def .
qed

lemma show_nat_not_empty: "show_nat n \<noteq> []"
  by (subst show_nat.simps) simp

lemma digit_inj:
  assumes "d < 10" and "d' < 10" and "''0123456789'' ! d = ''0123456789'' ! d'"
  shows "d = d'"
proof -
  have "distinct ''0123456789''" by simp
  moreover have "d < length ''0123456789''" "d' < length ''0123456789''"
    using assms(1,2) by simp_all
  ultimately show ?thesis
    using assms(3) by (simp only: nth_eq_iff_index_eq)
qed

lemma show_nat_inj:
  "show_nat n = show_nat m \<Longrightarrow> n = m"
proof (induction n arbitrary: m rule: show_nat.induct)
  case (1 n)
  note eq = "1.prems"
  have small: "show_nat k = [''0123456789'' ! k]" if "k < 10" for k
    using that by (subst show_nat.simps) simp
  have big: "show_nat k = show_nat (k div 10) @ [''0123456789'' ! (k mod 10)]" if "\<not> k < 10" for k
    using that by (subst show_nat.simps) simp
  show ?case
  proof (cases "n < 10")
    case n: True
    show ?thesis
    proof (cases "m < 10")
      case True
      have "''0123456789'' ! n = ''0123456789'' ! m"
        using eq unfolding small [OF n] small [OF True] by (simp only: list.inject)
      with n True show ?thesis by (rule digit_inj)
    next
      case False
      have "[''0123456789'' ! n] = show_nat (m div 10) @ [''0123456789'' ! (m mod 10)]"
        using eq unfolding small [OF n] big [OF False] .
      then have "show_nat (m div 10) = []"
        by (simp only: append_eq_Cons_conv Cons_eq_append_conv) auto
      then show ?thesis using show_nat_not_empty by blast
    qed
  next
    case n: False
    show ?thesis
    proof (cases "m < 10")
      case True
      have "show_nat (n div 10) @ [''0123456789'' ! (n mod 10)] = [''0123456789'' ! m]"
        using eq unfolding small [OF True] big [OF n] .
      then have "show_nat (n div 10) = []"
        by (simp only: append_eq_Cons_conv Cons_eq_append_conv) auto
      then show ?thesis using show_nat_not_empty by blast
    next
      case False
      have "show_nat (n div 10) @ [''0123456789'' ! (n mod 10)]
          = show_nat (m div 10) @ [''0123456789'' ! (m mod 10)]"
        using eq unfolding big [OF n] big [OF False] .
      then have p: "show_nat (n div 10) = show_nat (m div 10)"
        and d: "''0123456789'' ! (n mod 10) = ''0123456789'' ! (m mod 10)"
        by (simp_all only: append1_eq_conv)
      have "n div 10 = m div 10"
        using n p by (rule "1.IH")
      moreover have "n mod 10 = m mod 10"
        by (rule digit_inj [OF _ _ d]) simp_all
      ultimately show ?thesis
        by (metis div_mult_mod_eq)
    qed
  qed
qed

lemma not_digit:
  "CHR ''-'' \<notin> set ''0123456789''" "CHR ''_'' \<notin> set ''0123456789''"
  "CHR ''/'' \<notin> set ''0123456789''"
  by simp_all

lemma show_nat_avoids:
  assumes "c \<notin> set ''0123456789''"
  shows "c \<notin> set (show_nat n)"
  by (rule contra_subsetD [OF show_nat_digits assms])

lemma show_int_cases:
  "i < 0 \<Longrightarrow> show_int i = CHR ''-'' # show_nat (nat (- i))"
  "\<not> i < 0 \<Longrightarrow> show_int i = show_nat (nat i)"
  by (simp_all add: show_int_def)

lemma show_int_inj:
  assumes "show_int i = show_int j"
  shows "i = j"
proof -
  have mixed: False if "CHR ''-'' # show_nat k = show_nat k'" for k k'
  proof -
    have "CHR ''-'' \<in> set (show_nat k')"
      unfolding that [symmetric] by (rule list.set_intros(1))
    then show False
      using show_nat_avoids [OF not_digit(1)] by blast
  qed
  show ?thesis
  proof (cases "i < 0")
    case i: True
    show ?thesis
    proof (cases "j < 0")
      case True
      have "show_nat (nat (- i)) = show_nat (nat (- j))"
        using assms unfolding show_int_cases(1) [OF i] show_int_cases(1) [OF True]
        by (simp only: list.inject)
      then have "nat (- i) = nat (- j)" by (rule show_nat_inj)
      then show ?thesis using i True by simp
    next
      case False
      have "CHR ''-'' # show_nat (nat (- i)) = show_nat (nat j)"
        using assms unfolding show_int_cases(1) [OF i] show_int_cases(2) [OF False] .
      then show ?thesis using mixed by blast
    qed
  next
    case i: False
    show ?thesis
    proof (cases "j < 0")
      case True
      have "CHR ''-'' # show_nat (nat (- j)) = show_nat (nat i)"
        using assms [symmetric] unfolding show_int_cases(2) [OF i] show_int_cases(1) [OF True] .
      then show ?thesis using mixed by blast
    next
      case False
      have "show_nat (nat i) = show_nat (nat j)"
        using assms unfolding show_int_cases(2) [OF i] show_int_cases(2) [OF False] .
      then have "nat i = nat j" by (rule show_nat_inj)
      then show ?thesis using i False by simp
    qed
  qed
qed

lemma show_int_chars: "CHR ''_'' \<notin> set (show_int i)" "CHR ''/'' \<notin> set (show_int i)"
proof -
  have 1: "CHR ''_'' \<notin> set (show_nat k)" and 2: "CHR ''/'' \<notin> set (show_nat k)" for k
    by (rule show_nat_avoids, rule not_digit)+
  show "CHR ''_'' \<notin> set (show_int i)"
    by (cases "i < 0") (simp_all add: show_int_cases 1)
  show "CHR ''/'' \<notin> set (show_int i)"
    by (cases "i < 0") (simp_all add: show_int_cases 2)
qed

lemma host_printing_example: "host_printing (example_env fs)"
proof -
  have "in_box ring [JNumber b, JNumber a] = in_box ring [JNumber b', JNumber a']"
    if "show_int a = show_int a'" and "show_int b = show_int b'" for a a' b b' ring
    using show_int_inj [OF that(1)] show_int_inj [OF that(2)] by simp
  then show ?thesis
    unfolding host_printing_def example_env_fields using show_int_chars by blast
qed

lemma example_lookup_7_null:
  assumes "map_of (cache c) ''7_7_null'' = None"
  shows "reverseGeolocation (example_env [square_A, square_B]) (Some c) (JNumber 7) (JNumber 7) (Some ''null'')
     = Inr (build_result (Some ''null'') square_A,
            Some (set_entry (\<lambda>result. ''{..}'') ''7_7_null'' (build_result (Some ''null'') square_A) c),
            CacheGet ''7_7_null'' # feature_calls (example_env [square_A, square_B]) (JNumber 7) (JNumber 7) square_A
              @ [CacheSet ''7_7_null''])"
proof -
  let ?E = "example_env [square_A, square_B]"
  have h: "0 < length (admin1_features ?E)"
    and c: "feature_contains ?E (JNumber 7) (JNumber 7) (admin1_features ?E ! 0)"
    by (simp_all add: example_env_fields contains_A_7)
  have i: "first_index (feature_contains ?E (JNumber 7) (JNumber 7)) [square_A, square_B] = 0"
    using contains_A_7 by (simp add: first_index_def)
  have k: "cacheKey (numberToString ?E) (JNumber 7) (JNumber 7) (Some ''null'') = Inr ''7_7_null''"
    by (simp add: example_env_fields cacheKey_numbers show_int_7)
  show ?thesis
    using lookup_found [OF h c, of "Some ''null''"] k assms
    unfolding Let_def example_env_fields i by simp
qed

lemma example_set_file:
  "set_entry (\<lambda>result. ''{..}'') ''/countries/AA.json'' r
       \<lparr>maxSize = 8, currentSize = 8,
        cache = [(''8_8_null'', \<lparr>entry_data = r', entry_size = 8\<rparr>)]\<rparr>
     = \<lparr>maxSize = 8, currentSize = 8,
        cache = [(''/countries/AA.json'', \<lparr>entry_data = r, entry_size = 8\<rparr>)]\<rparr>"
proof -
  have "distinct (map fst (cache \<lparr>maxSize = 8, currentSize = 8,
        cache = [(''8_8_null'', \<lparr>entry_data = r', entry_size = 8\<rparr>)]\<rparr>))"
    by simp
  then show ?thesis
    by (simp add: set_entry_eq_spec set_spec_def getSize_def)
qed

text \<open>
  A cache that holds one entry. In the first history \<open>lookUp\<close> with the mode \<open>'null'\<close>, a
  query with the same key as the query without mode, stores its result. In the second the
  lookup of (7, 7) stores its result, the lookup of (8, 8) evicts it, and the insertion of a
  file evicts that. The lookup of (7, 7) gives the same output on both caches, by a hit on
  the first and by a new scan on the second.
\<close>

theorem lookup_deterministic_witness:
  "host_printing (example_env [square_A, square_B]) \<and>
   module_step (Lookup (JNumber 7) (JNumber 7) (Some ''null'') :: (int, int \<times> int \<times> int \<times> int) step) \<and>
   module_step (Lookup (JNumber 7) (JNumber 7) None :: (int, int \<times> int \<times> int \<times> int) step) \<and>
   module_step (Lookup (JNumber 8) (JNumber 8) None :: (int, int \<times> int \<times> int \<times> int) step) \<and>
   module_step (CacheOp (OpSet ''/countries/AA.json'' Null) :: (int, int \<times> int \<times> int \<times> int) step) \<and>
   foldl (run_step (example_env [square_A, square_B])) (Some (new_LRUCache 8))
       [Lookup (JNumber 7) (JNumber 7) (Some ''null'')]
     = Some \<lparr>maxSize = 8, currentSize = 8,
             cache = [(''7_7_null'',
                       \<lparr>entry_data = build_result (Some ''null'') square_A, entry_size = 8\<rparr>)]\<rparr> \<and>
   foldl (run_step (example_env [square_A, square_B])) (Some (new_LRUCache 8))
       [Lookup (JNumber 7) (JNumber 7) None, Lookup (JNumber 8) (JNumber 8) None,
        CacheOp (OpSet ''/countries/AA.json'' Null)]
     = Some \<lparr>maxSize = 8, currentSize = 8,
             cache = [(''/countries/AA.json'', \<lparr>entry_data = Null, entry_size = 8\<rparr>)]\<rparr> \<and>
   lookup_output (example_env [square_A, square_B])
       (Some \<lparr>maxSize = 8, currentSize = 8,
             cache = [(''7_7_null'',
                       \<lparr>entry_data = build_result (Some ''null'') square_A, entry_size = 8\<rparr>)]\<rparr>)
       (JNumber 7) (JNumber 7) None
     = lookup_output (example_env [square_A, square_B])
       (Some \<lparr>maxSize = 8, currentSize = 8,
             cache = [(''/countries/AA.json'', \<lparr>entry_data = Null, entry_size = 8\<rparr>)]\<rparr>)
       (JNumber 7) (JNumber 7) None \<and>
   lookup_output (example_env [square_A, square_B])
       (Some \<lparr>maxSize = 8, currentSize = 8,
             cache = [(''7_7_null'',
                       \<lparr>entry_data = build_result (Some ''null'') square_A, entry_size = 8\<rparr>)]\<rparr>)
       (JNumber 7) (JNumber 7) None
     = Inr (PropertiesObject [(''continent_code'', JString ''NA''), (''country_a2'', JString ''AA''),
              (''country_a3'', JString ''AAA''), (''region_code'', JString ''A-W''),
              (''state_code'', JString ''AA-KS'')])"
proof -
  let ?E = "example_env [square_A, square_B]"
  let ?c0 = "new_LRUCache 8 :: (int, int \<times> int \<times> int \<times> int) jsresult LRUCache"
  let ?cA = "\<lparr>maxSize = 8, currentSize = 8,
             cache = [(''7_7_null'',
                       \<lparr>entry_data = build_result (Some ''null'') square_A, entry_size = 8\<rparr>)]\<rparr>"
  let ?c1 = "\<lparr>maxSize = 8, currentSize = 8,
             cache = [(''7_7_null'', \<lparr>entry_data = build_result None square_A, entry_size = 8\<rparr>)]\<rparr>"
  let ?c2 = "\<lparr>maxSize = 8, currentSize = 8,
             cache = [(''8_8_null'', \<lparr>entry_data = build_result None square_A, entry_size = 8\<rparr>)]\<rparr>"
  let ?cB = "\<lparr>maxSize = 8, currentSize = 8,
             cache = [(''/countries/AA.json'',
                       \<lparr>entry_data = Null :: (int, int \<times> int \<times> int \<times> int) jsresult, entry_size = 8\<rparr>)]\<rparr>"
  let ?A = "[Lookup (JNumber 7) (JNumber 7) (Some ''null'')] :: (int, int \<times> int \<times> int \<times> int) step list"
  let ?B = "[Lookup (JNumber 7) (JNumber 7) None, Lookup (JNumber 8) (JNumber 8) None,
             CacheOp (OpSet ''/countries/AA.json'' Null)] :: (int, int \<times> int \<times> int \<times> int) step list"
  have host: "host_printing ?E"
    by (rule host_printing_example)
  have m1: "module_step (Lookup (JNumber 7) (JNumber 7) (Some ''null'') :: (int, int \<times> int \<times> int \<times> int) step)"
    and m2: "module_step (Lookup (JNumber 7) (JNumber 7) None :: (int, int \<times> int \<times> int \<times> int) step)"
    and m3: "module_step (Lookup (JNumber 8) (JNumber 8) None :: (int, int \<times> int \<times> int \<times> int) step)"
    and m4: "module_step (CacheOp (OpSet ''/countries/AA.json'' Null) :: (int, int \<times> int \<times> int \<times> int) step)"
    by simp_all
  have e: "map_of (cache ?c0) ''7_7_null'' = None"
    by (simp add: new_LRUCache_def)
  have sA: "run_step ?E (Some ?c0) (Lookup (JNumber 7) (JNumber 7) (Some ''null'')) = Some ?cA"
    by (simp only: run_step.simps example_lookup_7_null [OF e] example_set_7 sum.case prod.case)
  have s1: "run_step ?E (Some ?c0) (Lookup (JNumber 7) (JNumber 7) None) = Some ?c1"
    by (simp only: run_step.simps example_lookup_7 [OF e] example_set_7 sum.case prod.case)
  have e2: "map_of (cache ?c1) ''8_8_null'' = None"
    by simp
  have s2: "run_step ?E (Some ?c1) (Lookup (JNumber 8) (JNumber 8) None) = Some ?c2"
    by (simp only: run_step.simps example_lookup_8 [OF e2] example_set_8 sum.case prod.case)
  have s3: "run_step ?E (Some ?c2) (CacheOp (OpSet ''/countries/AA.json'' Null)) = Some ?cB"
    by (simp only: run_step.simps option.case apply_op.simps example_env_fields example_set_file)
  have fA: "foldl (run_step ?E) (Some ?c0) ?A = Some ?cA"
    by (simp only: foldl.simps sA)
  have fB: "foldl (run_step ?E) (Some ?c0) ?B = Some ?cB"
    by (simp only: foldl.simps s1 s2 s3)
  have msA: "\<forall>s \<in> set ?A. module_step s"
    using m1 by simp
  have msB: "\<forall>s \<in> set ?B. module_step s"
    using m2 m3 m4 by simp
  have init: "Some ?c0 = None \<or> (\<exists>n. Some ?c0 = Some (new_LRUCache n))"
    by blast
  have fresh: "lookup_output ?E None (JNumber 7) (JNumber 7) None
     = Inr (PropertiesObject [(''continent_code'', JString ''NA''), (''country_a2'', JString ''AA''),
              (''country_a3'', JString ''AAA''), (''region_code'', JString ''A-W''),
              (''state_code'', JString ''AA-KS'')])"
    using contains_A_7 [of "[square_A, square_B]"]
    by (simp add: lookup_output_no_cache example_env_fields first_index_def result_A)
  note d = lookup_deterministic [OF host msA msB init init, unfolded fA fB]
  have d1: "lookup_output ?E (Some ?cA) (JNumber 7) (JNumber 7) None
          = lookup_output ?E (Some ?cB) (JNumber 7) (JNumber 7) None"
    using d by (rule conjunct1)
  have d2: "lookup_output ?E (Some ?cA) (JNumber 7) (JNumber 7) None
          = lookup_output ?E None (JNumber 7) (JNumber 7) None"
    using d by (rule conjunct2)
  show ?thesis
    using host m1 m2 m3 m4 fA fB d1 d2 [unfolded fresh] by (intro conjI)
qed

lemma not_contains_12:
  "\<not> feature_contains (example_env fs) (JNumber 12) (JNumber 12) square_A"
  "\<not> feature_contains (example_env fs) (JNumber 12) (JNumber 12) square_B"
  by (simp_all add: feature_contains_def example_env_def square_A_def square_B_def geometry_test_def
      rings_test_char polygon_rule_def in_box_def at_index_def)

lemma calls_12:
  "feature_calls (example_env fs) (JNumber 12) (JNumber 12) square_A
     = [PointInPolygonCall (Some (0, 0, 10, 10)) [JNumber 12, JNumber 12]]"
  "feature_calls (example_env fs) (JNumber 12) (JNumber 12) square_B
     = [PointInPolygonCall (Some (20, 20, 30, 30)) [JNumber 12, JNumber 12],
        PointInPolygonCall (Some (5, 5, 15, 15)) [JNumber 12, JNumber 12],
        PointInPolygonCall (Some (11, 11, 13, 13)) [JNumber 12, JNumber 12]]"
  by (simp_all add: feature_calls_def example_env_def square_A_def square_B_def geometry_test_def
      rings_test_char polygon_calls_def polygon_rule_def in_box_def at_index_def)

text \<open>
  The point (12, 12) lies outside the first square and in the hole of the second: the three
  lookups return \<open>null\<close> after testing all four rings, the cache stays new, and the same
  lookup made again does the same.
\<close>

theorem miss_returns_null_uncached_witness:
  "\<not> feature_contains (example_env [square_A, square_B]) (JNumber 12) (JNumber 12) square_A \<and>
   \<not> feature_contains (example_env [square_A, square_B]) (JNumber 12) (JNumber 12) square_B \<and>
   lookUp (example_env [square_A, square_B]) (Some (new_LRUCache 100)) (JNumber 12) (JNumber 12)
     = Inr (Null, Some (new_LRUCache 100),
            [CacheGet ''12_12_null'',
             PointInPolygonCall (Some (0, 0, 10, 10)) [JNumber 12, JNumber 12],
             PointInPolygonCall (Some (20, 20, 30, 30)) [JNumber 12, JNumber 12],
             PointInPolygonCall (Some (5, 5, 15, 15)) [JNumber 12, JNumber 12],
             PointInPolygonCall (Some (11, 11, 13, 13)) [JNumber 12, JNumber 12]]) \<and>
   lookUpRaw (example_env [square_A, square_B]) (Some (new_LRUCache 100)) (JNumber 12) (JNumber 12)
     = Inr (Null, Some (new_LRUCache 100),
            [CacheGet ''12_12_raw'',
             PointInPolygonCall (Some (0, 0, 10, 10)) [JNumber 12, JNumber 12],
             PointInPolygonCall (Some (20, 20, 30, 30)) [JNumber 12, JNumber 12],
             PointInPolygonCall (Some (5, 5, 15, 15)) [JNumber 12, JNumber 12],
             PointInPolygonCall (Some (11, 11, 13, 13)) [JNumber 12, JNumber 12]]) \<and>
   lookUpGeoJSON (example_env [square_A, square_B]) (Some (new_LRUCache 100)) (JNumber 12) (JNumber 12)
     = Inr (Null, Some (new_LRUCache 100),
            [CacheGet ''12_12_geojson'',
             PointInPolygonCall (Some (0, 0, 10, 10)) [JNumber 12, JNumber 12],
             PointInPolygonCall (Some (20, 20, 30, 30)) [JNumber 12, JNumber 12],
             PointInPolygonCall (Some (5, 5, 15, 15)) [JNumber 12, JNumber 12],
             PointInPolygonCall (Some (11, 11, 13, 13)) [JNumber 12, JNumber 12]]) \<and>
   lookUp (example_env [square_A, square_B])
       (foldl (run_step (example_env [square_A, square_B])) (Some (new_LRUCache 100))
          [Lookup (JNumber 12) (JNumber 12) None])
       (JNumber 12) (JNumber 12)
     = lookUp (example_env [square_A, square_B]) (Some (new_LRUCache 100)) (JNumber 12) (JNumber 12)"
proof -
  let ?E = "example_env [square_A, square_B]"
  let ?new = "new_LRUCache 100 :: (int, int \<times> int \<times> int \<times> int) jsresult LRUCache"
  have none: "\<forall>f \<in> set (admin1_features ?E). \<not> feature_contains ?E (JNumber 12) (JNumber 12) f"
    by (simp add: example_env_fields not_contains_12)
  have init: "Some ?new = None \<or> (\<exists>n. Some ?new = Some (new_LRUCache n))"
    by blast
  have un0: "\<forall>s \<in> set []. unrelated ?E (JNumber 12) (JNumber 12) None s \<and>
           unrelated ?E (JNumber 12) (JNumber 12) (Some ''raw'') s \<and>
           unrelated ?E (JNumber 12) (JNumber 12) (Some ''geojson'') s"
    by simp
  have un1: "\<forall>s \<in> set [Lookup (JNumber 12) (JNumber 12) None].
           unrelated ?E (JNumber 12) (JNumber 12) None s \<and>
           unrelated ?E (JNumber 12) (JNumber 12) (Some ''raw'') s \<and>
           unrelated ?E (JNumber 12) (JNumber 12) (Some ''geojson'') s"
    by (simp add: example_env_fields example_keys)
  note first = miss_returns_null_uncached [OF none un0 init, unfolded Let_def, simplified]
  have l: "lookUp ?E (Some ?new) (JNumber 12) (JNumber 12)
     = Inr (Null, Some ?new,
            [CacheGet ''12_12_null'',
             PointInPolygonCall (Some (0, 0, 10, 10)) [JNumber 12, JNumber 12],
             PointInPolygonCall (Some (20, 20, 30, 30)) [JNumber 12, JNumber 12],
             PointInPolygonCall (Some (5, 5, 15, 15)) [JNumber 12, JNumber 12],
             PointInPolygonCall (Some (11, 11, 13, 13)) [JNumber 12, JNumber 12]])"
    using first by (simp add: example_env_fields show_int_12 calls_12)
  have r: "lookUpRaw ?E (Some ?new) (JNumber 12) (JNumber 12)
     = Inr (Null, Some ?new,
            [CacheGet ''12_12_raw'',
             PointInPolygonCall (Some (0, 0, 10, 10)) [JNumber 12, JNumber 12],
             PointInPolygonCall (Some (20, 20, 30, 30)) [JNumber 12, JNumber 12],
             PointInPolygonCall (Some (5, 5, 15, 15)) [JNumber 12, JNumber 12],
             PointInPolygonCall (Some (11, 11, 13, 13)) [JNumber 12, JNumber 12]])"
    using first by (simp add: example_env_fields show_int_12 calls_12)
  have g: "lookUpGeoJSON ?E (Some ?new) (JNumber 12) (JNumber 12)
     = Inr (Null, Some ?new,
            [CacheGet ''12_12_geojson'',
             PointInPolygonCall (Some (0, 0, 10, 10)) [JNumber 12, JNumber 12],
             PointInPolygonCall (Some (20, 20, 30, 30)) [JNumber 12, JNumber 12],
             PointInPolygonCall (Some (5, 5, 15, 15)) [JNumber 12, JNumber 12],
             PointInPolygonCall (Some (11, 11, 13, 13)) [JNumber 12, JNumber 12]])"
    using first by (simp add: example_env_fields show_int_12 calls_12)
  have "run_step ?E (Some ?new) (Lookup (JNumber 12) (JNumber 12) None) = Some ?new"
    by (simp only: run_step.simps l [unfolded lookUp_def] sum.case prod.case)
  then have again: "foldl (run_step ?E) (Some ?new) [Lookup (JNumber 12) (JNumber 12) None] = Some ?new"
    by (simp only: foldl.simps)
  show ?thesis
    using none l r g again miss_returns_null_uncached [OF none un1 init]
    by (simp add: example_env_fields)
qed

lemma configure_existing:
  assumes "cacheInstance st = Some r"
  shows "configure opts st =
     st\<lparr>config_cacheSize := (case options_cacheSize opts of None \<Rightarrow> config_cacheSize st | Some n \<Rightarrow> n),
        config_cache := (case options_cacheSize opts of None \<Rightarrow> config_cache st | Some n \<Rightarrow> Some r),
        config_useOptimized :=
          (case options_useOptimized opts of None \<Rightarrow> config_useOptimized st | Some b \<Rightarrow> b)\<rparr>"
  using assms
  by (cases "options_cacheSize opts"; cases "options_useOptimized opts")
     (simp_all add: configure_def getCache_def Let_def)

lemma configure_first:
  assumes "cacheInstance st = None" and "options_cacheSize opts = Some n"
  shows "cacheInstance (configure opts st) = Some (length (heap st))"
    and "config_cache (configure opts st) = Some (length (heap st))"
    and "heap (configure opts st) = heap st @ [new_LRUCache n]"
    and "config_cacheSize (configure opts st) = n"
  using assms
  by (cases "options_useOptimized opts"; simp add: configure_def getCache_def Let_def)+

lemma configure_many_existing:
  assumes "cacheInstance st = Some r"
  shows "cacheInstance (foldl (\<lambda>s opts. configure opts s) st later) = Some r \<and>
         heap (foldl (\<lambda>s opts. configure opts s) st later) = heap st"
  using assms
proof (induction later arbitrary: st)
  case Nil
  then show ?case by simp
next
  case (Cons opts later)
  have "cacheInstance (configure opts st) = Some r" and "heap (configure opts st) = heap st"
    using Cons.prems by (simp_all add: configure_existing)
  then show ?case using Cons.IH [of "configure opts st"] by simp
qed

lemma configure_later:
  assumes a: "cacheInstance st = Some r"
  shows "cacheInstance (foldl (\<lambda>s opts. configure opts s) st later) = Some r \<and>
      heap (foldl (\<lambda>s opts. configure opts s) st later) = heap st \<and>
      deref (foldl (\<lambda>s opts. configure opts s) st later) (Some r) = deref st (Some r) \<and>
      (\<forall>n. options_cacheSize opts = Some n \<longrightarrow>
         config_cacheSize (configure opts st) = n \<and>
         config_cache (configure opts st) = Some r \<and>
         deref (configure opts st) (config_cache (configure opts st)) = deref st (Some r))"
proof -
  note many = configure_many_existing [OF a, of later]
  have d: "deref (foldl (\<lambda>s opts. configure opts s) st later) (Some r) = deref st (Some r)"
    using many by (simp add: deref_def)
  have n: "config_cacheSize (configure opts st) = m \<and>
         config_cache (configure opts st) = Some r \<and>
         deref (configure opts st) (config_cache (configure opts st)) = deref st (Some r)"
    if "options_cacheSize opts = Some m" for m
    using that by (simp add: configure_existing [OF a] deref_def)
  show ?thesis
    using many d n by blast
qed

lemma configure_first_wins:
  assumes f: "options_cacheSize first = Some n"
  shows "let st1 = configure first initial_state;
             st2 = foldl (\<lambda>s opts. configure opts s) st1 later
         in deref st2 (cacheInstance st2) = Some (new_LRUCache n) \<and>
            deref st2 (config_cache st1) = Some (new_LRUCache n) \<and>
            config_cache st1 = cacheInstance st2"
proof -
  define st0 :: "('a, 'b) module_state" where "st0 = initial_state"
  have i: "cacheInstance st0 = None" and hi: "heap st0 = []"
    by (simp_all add: st0_def initial_state_def)
  note cf = configure_first [OF i f]
  have ci: "cacheInstance (configure first st0) = Some 0"
    and cc: "config_cache (configure first st0) = Some 0"
    and hp: "heap (configure first st0) = [new_LRUCache n]"
    using cf by (simp_all add: hi)
  note many = configure_many_existing [OF ci, of later]
  have "deref (foldl (\<lambda>s opts. configure opts s) (configure first st0) later)
          (cacheInstance (foldl (\<lambda>s opts. configure opts s) (configure first st0) later))
          = Some (new_LRUCache n) \<and>
        deref (foldl (\<lambda>s opts. configure opts s) (configure first st0) later)
          (config_cache (configure first st0)) = Some (new_LRUCache n) \<and>
        config_cache (configure first st0)
          = cacheInstance (foldl (\<lambda>s opts. configure opts s) (configure first st0) later)"
    using many by (simp add: deref_def at_index_def hp cc)
  then show ?thesis
    unfolding Let_def st0_def .
qed

text \<open>
  Claim C10. Once \<open>cacheInstance\<close> refers to a cache, a configure call, and any sequence of
  later ones, leaves \<open>cacheInstance\<close> and the heap as they are, so the capacity, the entries
  and the size counter of that cache do not change; a call that passes \<open>cacheSize\<close> only
  updates \<open>config.cacheSize\<close> and binds \<open>config.cache\<close> to the existing cache. From the
  initial state, the cache created by the first call that passes \<open>cacheSize\<close> keeps that
  capacity through all later calls.
\<close>

theorem configure_keeps_singleton:
  "(cacheInstance st = Some r \<longrightarrow>
      cacheInstance (foldl (\<lambda>s opts. configure opts s) st later) = Some r \<and>
      heap (foldl (\<lambda>s opts. configure opts s) st later) = heap st \<and>
      deref (foldl (\<lambda>s opts. configure opts s) st later) (Some r) = deref st (Some r) \<and>
      (\<forall>n. options_cacheSize opts = Some n \<longrightarrow>
         config_cacheSize (configure opts st) = n \<and>
         config_cache (configure opts st) = Some r \<and>
         deref (configure opts st) (config_cache (configure opts st)) = deref st (Some r))) \<and>
   (options_cacheSize first = Some n \<longrightarrow>
      (let st1 = configure first initial_state;
           st2 = foldl (\<lambda>s opts. configure opts s) st1 later'
       in deref st2 (cacheInstance st2) = Some (new_LRUCache n) \<and>
          deref st2 (config_cache st1) = Some (new_LRUCache n) \<and>
          config_cache st1 = cacheInstance st2))"
  using configure_later [of st r later opts] configure_first_wins [of first n later']
  by blast

text \<open>
  Configured with 100 and then with 5: the cache still has capacity 100, while
  \<open>config.cacheSize\<close> is 5.
\<close>

theorem configure_keeps_singleton_witness:
  "options_cacheSize \<lparr>options_cacheSize = Some 100, options_useOptimized = None\<rparr> = Some 100 \<and>
   cacheInstance (configure \<lparr>options_cacheSize = Some 100, options_useOptimized = None\<rparr>
                    (initial_state :: (int, int \<times> int \<times> int \<times> int) module_state)) = Some 0 \<and>
   deref (foldl (\<lambda>s opts. configure opts s)
            (configure \<lparr>options_cacheSize = Some 100, options_useOptimized = None\<rparr>
               (initial_state :: (int, int \<times> int \<times> int \<times> int) module_state))
            [\<lparr>options_cacheSize = Some 5, options_useOptimized = Some False\<rparr>])
         (Some 0)
     = Some \<lparr>maxSize = 100, currentSize = 0, cache = []\<rparr> \<and>
   config_cacheSize (configure \<lparr>options_cacheSize = Some 5, options_useOptimized = Some False\<rparr>
       (configure \<lparr>options_cacheSize = Some 100, options_useOptimized = None\<rparr>
          (initial_state :: (int, int \<times> int \<times> int \<times> int) module_state))) = 5"
proof -
  let ?first = "\<lparr>options_cacheSize = Some 100, options_useOptimized = None\<rparr>"
  let ?second = "\<lparr>options_cacheSize = Some 5, options_useOptimized = Some False\<rparr>"
  let ?st1 = "configure ?first (initial_state :: (int, int \<times> int \<times> int \<times> int) module_state)"
  have f: "options_cacheSize ?first = Some 100" and s: "options_cacheSize ?second = Some 5"
    by simp_all
  have ci: "cacheInstance ?st1 = Some 0" and cc: "config_cache ?st1 = Some 0"
    by (simp_all add: configure_def getCache_def initial_state_def Let_def)
  note t = configure_keeps_singleton [of ?st1 0 "[?second]" ?second ?first 100 "[?second]"]
  from t have t1: "cacheInstance ?st1 = Some 0 \<longrightarrow>
      cacheInstance (foldl (\<lambda>s opts. configure opts s) ?st1 [?second]) = Some 0 \<and>
      heap (foldl (\<lambda>s opts. configure opts s) ?st1 [?second]) = heap ?st1 \<and>
      deref (foldl (\<lambda>s opts. configure opts s) ?st1 [?second]) (Some 0) = deref ?st1 (Some 0) \<and>
      (\<forall>n. options_cacheSize ?second = Some n \<longrightarrow>
         config_cacheSize (configure ?second ?st1) = n \<and>
         config_cache (configure ?second ?st1) = Some 0 \<and>
         deref (configure ?second ?st1) (config_cache (configure ?second ?st1)) = deref ?st1 (Some 0))"
    by (rule conjunct1)
  from t have t2: "options_cacheSize ?first = Some 100 \<longrightarrow>
      (let st1 = ?st1; st2 = foldl (\<lambda>s opts. configure opts s) st1 [?second]
       in deref st2 (cacheInstance st2) = Some (new_LRUCache 100) \<and>
          deref st2 (config_cache st1) = Some (new_LRUCache 100) \<and>
          config_cache st1 = cacheInstance st2)"
    by (rule conjunct2)
  have "deref (foldl (\<lambda>s opts. configure opts s) ?st1 [?second]) (config_cache ?st1)
        = Some (new_LRUCache 100)"
    using t2 f unfolding Let_def by blast
  then have 1: "deref (foldl (\<lambda>s opts. configure opts s) ?st1 [?second]) (Some 0)
      = Some \<lparr>maxSize = 100, currentSize = 0, cache = []\<rparr>"
    unfolding cc by (simp add: new_LRUCache_def)
  have "\<forall>n. options_cacheSize ?second = Some n \<longrightarrow> config_cacheSize (configure ?second ?st1) = n"
    using t1 ci by blast
  then have 2: "config_cacheSize (configure ?second ?st1) = 5"
    using s by blast
  show ?thesis
    using f ci 1 2 by (intro conjI)
qed

end
